theory Spec2Isabelle
  imports Complex_Main "HOL-Library.Word"
begin

unbundle bit_operations_syntax

section \<open>Configuration constants\<close>

text \<open>
  The sketch \<^verbatim>\<open>backup.cpp\<close> drives an 8x32 LED matrix from a serial command stream.
  C \<^verbatim>\<open>int\<close> values are modelled as \<^typ>\<open>int\<close>. The only places where a value could leave
  the range of a C \<^verbatim>\<open>int\<close> are the numerals read by \<^verbatim>\<open>atoi\<close> and \<^verbatim>\<open>sscanf\<close>; there the
  value is wrapped to the width of \<^verbatim>\<open>int\<close>, see \<open>wrap_int\<close> below. Everywhere else the
  values stay far inside the range.
\<close>

definition NUM_LEDS :: int where
  "NUM_LEDS = 256"

definition MAX_PALETTE :: int where
  "MAX_PALETTE = 49"

text \<open>
  The width of \<^verbatim>\<open>int\<close> on the AVR boards the sketch is written for, and the two's
  complement value that an \<^verbatim>\<open>int\<close> holds when a number is stored into it: the low
  \<^verbatim>\<open>INT_BITS\<close> bits. This is what avr-libc's \<^verbatim>\<open>atoi\<close> and \<^verbatim>\<open>%d\<close> conversion produce for a
  numeral that does not fit, since both accumulate the digits with wrap-around.
\<close>

definition INT_BITS :: nat where
  "INT_BITS = 16"

definition INT_MIN :: int where
  "INT_MIN = - (2 ^ (INT_BITS - 1))"

definition INT_MAX :: int where
  "INT_MAX = 2 ^ (INT_BITS - 1) - 1"

definition wrap_int :: "int \<Rightarrow> int" where
  "wrap_int v = (v - INT_MIN) mod 2 ^ INT_BITS + INT_MIN"

text \<open>Size of \<^verbatim>\<open>char inputBuffer[512]\<close>.\<close>

definition BUFFER_SIZE :: int where
  "BUFFER_SIZE = 512"

section \<open>Characters and C strings\<close>

text \<open>
  A \<^verbatim>\<open>char\<close> is read through its code \<open>0..255\<close>. All comparisons of the sketch are against
  ASCII ranges, so the signedness of \<^verbatim>\<open>char\<close> makes no difference.
\<close>

definition ord :: "char \<Rightarrow> int" where
  "ord c = of_char c"

definition NUL :: char where
  "NUL = CHR 0x00"

definition LF :: char where
  "LF = CHR 0x0A"

definition CR :: char where
  "CR = CHR 0x0D"

definition isdigit :: "char \<Rightarrow> bool" where
  "isdigit c = (48 \<le> ord c \<and> ord c \<le> 57)"

text \<open>\<^verbatim>\<open>isspace\<close> in the C locale: space, and \<^verbatim>\<open>\t \n \v \f \r\<close>.\<close>

definition isspace :: "char \<Rightarrow> bool" where
  "isspace c = (ord c = 32 \<or> (9 \<le> ord c \<and> ord c \<le> 13))"

text \<open>
  The C string stored in a character array: the characters before the first \<^verbatim>\<open>'\0'\<close>.
\<close>

definition cstr :: "char list \<Rightarrow> string" where
  "cstr buf = takeWhile (\<lambda>c. c \<noteq> NUL) buf"

text \<open>
  \<^verbatim>\<open>strchr(s, c)\<close>: the suffix of \<open>s\<close> that starts at the first occurrence of \<open>c\<close>, or
  \<open>None\<close> for the null pointer.
\<close>

definition strchr :: "string \<Rightarrow> char \<Rightarrow> string option" where
  "strchr s c = (case dropWhile (\<lambda>x. x \<noteq> c) s of [] \<Rightarrow> None | x # r \<Rightarrow> Some (x # r))"

text \<open>Value of a run of decimal digits, most significant first.\<close>

definition digits_value :: "string \<Rightarrow> int" where
  "digits_value ds = foldl (\<lambda>a c. 10 * a + (ord c - 48)) 0 ds"

text \<open>
  The decimal integer reader shared by \<^verbatim>\<open>atoi\<close> and the \<^verbatim>\<open>%d\<close> conversion of \<^verbatim>\<open>sscanf\<close>:
  skip white space, take an optional sign, then the longest run of digits, which must not
  be empty. The result is the value as the \<^verbatim>\<open>int\<close> holds it, and the unread rest of the
  string.
\<close>

definition scan_int :: "string \<Rightarrow> (int \<times> string) option" where
  "scan_int s =
     (let s1 = dropWhile isspace s;
          neg = (case s1 of [] \<Rightarrow> False | c # r \<Rightarrow> c = CHR ''-'');
          s2 = (case s1 of [] \<Rightarrow> s1
                | c # r \<Rightarrow> if c = CHR ''-'' \<or> c = CHR ''+'' then r else s1);
          ds = takeWhile isdigit s2
      in if ds = [] then None
         else Some (wrap_int (if neg then - digits_value ds else digits_value ds),
                    dropWhile isdigit s2))"

text \<open>\<^verbatim>\<open>atoi\<close> returns 0 when no number can be read.\<close>

definition atoi :: "string \<Rightarrow> int" where
  "atoi s = (case scan_int s of None \<Rightarrow> 0 | Some (v, r) \<Rightarrow> v)"

text \<open>
  \<^verbatim>\<open>sscanf(data, "%d,%d,%d", &r, &g, &b)\<close>: the list of the values assigned, in order.
  Its length is the number of conversions made, which is what the call returns (or
  \<^verbatim>\<open>EOF\<close> when the input ends before the first conversion, which is not 3 either).
\<close>

definition sscanf_ddd :: "string \<Rightarrow> int list" where
  "sscanf_ddd data =
     (case scan_int data of
        None \<Rightarrow> []
      | Some (r, p1) \<Rightarrow>
          (case p1 of
             [] \<Rightarrow> [r]
           | c1 # q1 \<Rightarrow>
               if c1 \<noteq> CHR '','' then [r]
               else (case scan_int q1 of
                       None \<Rightarrow> [r]
                     | Some (g, p2) \<Rightarrow>
                         (case p2 of
                            [] \<Rightarrow> [r, g]
                          | c2 # q2 \<Rightarrow>
                              if c2 \<noteq> CHR '','' then [r, g]
                              else (case scan_int q2 of
                                      None \<Rightarrow> [r, g]
                                    | Some (b, p3) \<Rightarrow> [r, g, b])))))"

section \<open>Colour calibration\<close>

text \<open>
  The calibration factors are \<^verbatim>\<open>const float\<close>. A factor is kept as its numerator over
  \<open>2 ^ 24\<close>: \<^verbatim>\<open>1.00\<close> and \<^verbatim>\<open>0.75\<close> are exact, and the binary32 number nearest to
  \<^verbatim>\<open>0.90\<close> is \<open>15099494 / 2 ^ 24\<close>.
\<close>

definition RED_FACTOR :: int where
  "RED_FACTOR = 16777216"

definition GREEN_FACTOR :: int where
  "GREEN_FACTOR = 12582912"

definition BLUE_FACTOR :: int where
  "BLUE_FACTOR = 15099494"

text \<open>Number of binary digits of a non-negative integer.\<close>

function bit_width :: "int \<Rightarrow> nat" where
  "bit_width n = (if n \<le> 0 then 0 else Suc (bit_width (n div 2)))"
  by pat_completeness auto
termination
  by (relation "measure nat") auto

text \<open>
  Rounding of a non-negative integer to 24 significant bits, to nearest with ties to even:
  the rounding of a binary32 result (the values met here are far from the exponent
  limits).
\<close>

definition round24 :: "int \<Rightarrow> int" where
  "round24 p =
     (let e = bit_width p - 24;
          q = p div 2 ^ e;
          r = p mod 2 ^ e
      in if e = 0 then p
         else (if 2 * r > 2 ^ e \<or> (2 * r = 2 ^ e \<and> odd q) then q + 1 else q) * 2 ^ e)"

text \<open>
  \<^verbatim>\<open>(int)(v * FACTOR)\<close>: \<open>v\<close> is converted to \<^verbatim>\<open>float\<close>, the product is rounded to
  binary32, and the conversion back to \<^verbatim>\<open>int\<close> truncates towards zero. The factor is
  given by its numerator over \<open>2 ^ 24\<close>.
\<close>

definition calibrate :: "int \<Rightarrow> int \<Rightarrow> int" where
  "calibrate v factor =
     sgn v * (round24 (round24 \<bar>v\<bar> * factor) div 2 ^ 24)"

text \<open>Arduino's \<^verbatim>\<open>constrain(amt, low, high)\<close> macro.\<close>

definition constrain :: "int \<Rightarrow> int \<Rightarrow> int \<Rightarrow> int" where
  "constrain amt low high = (if amt < low then low else if amt > high then high else amt)"

section \<open>Hex decoding\<close>

definition hexToByte :: "char \<Rightarrow> char \<Rightarrow> int" where
  "hexToByte hi lo =
     (let val = 0;
          val = (if ord (CHR ''0'') \<le> ord hi \<and> ord hi \<le> ord (CHR ''9'')
                 then push_bit 4 (ord hi - ord (CHR ''0''))
                 else if ord (CHR ''A'') \<le> ord hi \<and> ord hi \<le> ord (CHR ''F'')
                 then push_bit 4 (ord hi - ord (CHR ''A'') + 10)
                 else if ord (CHR ''a'') \<le> ord hi \<and> ord hi \<le> ord (CHR ''f'')
                 then push_bit 4 (ord hi - ord (CHR ''a'') + 10)
                 else val);
          val = (if ord (CHR ''0'') \<le> ord lo \<and> ord lo \<le> ord (CHR ''9'')
                 then val OR (ord lo - ord (CHR ''0''))
                 else if ord (CHR ''A'') \<le> ord lo \<and> ord lo \<le> ord (CHR ''F'')
                 then val OR (ord lo - ord (CHR ''A'') + 10)
                 else if ord (CHR ''a'') \<le> ord lo \<and> ord lo \<le> ord (CHR ''f'')
                 then val OR (ord lo - ord (CHR ''a'') + 10)
                 else val)
      in val)"

section \<open>Render state and the two parsers\<close>

text \<open>
  The globals under \<^verbatim>\<open>=== COLORI ===\<close> and the flag \<^verbatim>\<open>needsUpdate\<close>. The two parsers
  read and write these globals only. The three palette arrays have \<^verbatim>\<open>MAX_PALETTE\<close> cells.
\<close>

record render_state =
  paletteMode :: bool
  paletteSize :: int
  paletteR :: "int list"
  paletteG :: "int list"
  paletteB :: "int list"
  currentR :: int
  currentG :: int
  currentB :: int
  needsUpdate :: bool

text \<open>
  The \<^verbatim>\<open>for\<close> loop of \<^verbatim>\<open>parsePalette\<close>. The loop writes into the palette arrays as it
  goes. \<open>Inl\<close> is the \<^verbatim>\<open>return\<close> from inside the loop, with the globals as they are at
  that point; \<open>Inr\<close> is the normal end of the loop.
\<close>

function parsePalette_loop ::
  "int \<Rightarrow> int \<Rightarrow> string \<Rightarrow> render_state \<Rightarrow> render_state + render_state" where
  "parsePalette_loop i n ptr s =
     (if i < n then
        if length ptr < 6 then Inl s
        else
          let s1 = s\<lparr>paletteR := (paletteR s)[nat i := calibrate (hexToByte (ptr ! 0) (ptr ! 1)) RED_FACTOR]\<rparr>;
              s2 = s1\<lparr>paletteG := (paletteG s1)[nat i := calibrate (hexToByte (ptr ! 2) (ptr ! 3)) GREEN_FACTOR]\<rparr>;
              s3 = s2\<lparr>paletteB := (paletteB s2)[nat i := calibrate (hexToByte (ptr ! 4) (ptr ! 5)) BLUE_FACTOR]\<rparr>;
              ptr1 = drop 6 ptr;
              ptr2 = (case ptr1 of [] \<Rightarrow> ptr1 | c # r \<Rightarrow> if c = CHR '':'' then r else ptr1)
          in parsePalette_loop (i + 1) n ptr2 s3
      else Inr s)"
  by pat_completeness auto
termination
  by (relation "measure (\<lambda>(i, n, ptr, s). nat (n - i))") auto

text \<open>
  \<^verbatim>\<open>parsePalette(data)\<close>, called on lines that start with \<^verbatim>\<open>P:\<close>, so that \<^verbatim>\<open>data + 2\<close>
  is inside the string.
\<close>

definition parsePalette :: "string \<Rightarrow> render_state \<Rightarrow> render_state" where
  "parsePalette data s =
     (let ptr = drop 2 data;
          n = atoi ptr
      in if n < 1 \<or> n > MAX_PALETTE then s
         else (case strchr ptr (CHR '':'') of
                 None \<Rightarrow> s
               | Some p \<Rightarrow>
                   (case parsePalette_loop 0 n (tl p) s of
                      Inl s1 \<Rightarrow> s1
                    | Inr s1 \<Rightarrow> s1\<lparr>paletteSize := n, paletteMode := True, needsUpdate := True\<rparr>)))"

definition parseSingle :: "string \<Rightarrow> render_state \<Rightarrow> render_state" where
  "parseSingle data s =
     (case sscanf_ddd data of
        [r, g, b] \<Rightarrow>
          s\<lparr>currentR := calibrate (constrain r 0 255) RED_FACTOR,
            currentG := calibrate (constrain g 0 255) GREEN_FACTOR,
            currentB := calibrate (constrain b 0 255) BLUE_FACTOR,
            paletteMode := False,
            needsUpdate := True\<rparr>
      | _ \<Rightarrow> s)"

section \<open>The controller: serial framing, rendering, the main loop\<close>

text \<open>
  A pixel of FastLED's \<^verbatim>\<open>CRGB\<close>: three \<^verbatim>\<open>uint8_t\<close> channels. The constructor
  \<^verbatim>\<open>CRGB(r, g, b)\<close> converts its \<^verbatim>\<open>int\<close> arguments to \<^verbatim>\<open>uint8_t\<close>, that is modulo 256.
\<close>

datatype CRGB = CRGB (red: "8 word") (green: "8 word") (blue: "8 word")

definition CRGB_of_ints :: "int \<Rightarrow> int \<Rightarrow> int \<Rightarrow> CRGB" where
  "CRGB_of_ints r g b = CRGB (word_of_int r) (word_of_int g) (word_of_int b)"

text \<open>
  The whole machine: the render state, the line buffer \<^verbatim>\<open>inputBuffer\<close> with its write
  position, the frame buffer \<^verbatim>\<open>leds\<close>, the activity LED on pin 13, the bytes waiting in
  the serial receive queue, and the frames that \<^verbatim>\<open>FastLED.show()\<close> has transmitted so far,
  oldest first.
\<close>

record controller =
  rs :: render_state
  inputBuffer :: "char list"
  bufferPos :: int
  leds :: "CRGB list"
  pin13 :: bool
  serial :: "char list"
  shown :: "CRGB list list"

datatype fault = DivByZero | OutOfBounds

text \<open>C's \<^verbatim>\<open>/\<close> on \<^verbatim>\<open>int\<close> truncates towards zero; division by zero is a fault.\<close>

definition c_div :: "int \<Rightarrow> int \<Rightarrow> fault + int" where
  "c_div a b = (if b = 0 then Inl DivByZero else Inr (sgn a * sgn b * (\<bar>a\<bar> div \<bar>b\<bar>)))"

text \<open>
  The state after \<^verbatim>\<open>setup()\<close>: globals are zero-initialised, and \<^verbatim>\<open>FastLED.clear()\<close>
  followed by \<^verbatim>\<open>FastLED.show()\<close> transmits one black frame.
\<close>

definition black :: CRGB where
  "black = CRGB 0 0 0"

definition setup_state :: controller where
  "setup_state =
     \<lparr>rs = \<lparr>paletteMode = False, paletteSize = 0,
             paletteR = replicate (nat MAX_PALETTE) 0,
             paletteG = replicate (nat MAX_PALETTE) 0,
             paletteB = replicate (nat MAX_PALETTE) 0,
             currentR = 0, currentG = 0, currentB = 0,
             needsUpdate = False\<rparr>,
      inputBuffer = replicate (nat BUFFER_SIZE) NUL,
      bufferPos = 0,
      leds = replicate (nat NUM_LEDS) black,
      pin13 = False,
      serial = [],
      shown = [replicate (nat NUM_LEDS) black]\<rparr>"

text \<open>
  The body of the \<^verbatim>\<open>while (Serial.available() > 0)\<close> loop for the byte \<open>c\<close> that
  \<^verbatim>\<open>Serial.read()\<close> returned.
\<close>

definition loop_body :: "char \<Rightarrow> controller \<Rightarrow> controller" where
  "loop_body c s =
     (if c = LF \<or> c = CR then
        (if bufferPos s > 0 then
           let s1 = s\<lparr>inputBuffer := (inputBuffer s)[nat (bufferPos s) := NUL], pin13 := True\<rparr>
           in if inputBuffer s1 ! 0 = CHR ''P'' \<and> inputBuffer s1 ! 1 = CHR '':''
              then s1\<lparr>rs := parsePalette (cstr (inputBuffer s1)) (rs s1)\<rparr>
              else s1\<lparr>rs := parseSingle (cstr (inputBuffer s1)) (rs s1)\<rparr>
         else s)\<lparr>bufferPos := 0\<rparr>
      else if bufferPos s < 510 then
        s\<lparr>inputBuffer := (inputBuffer s)[nat (bufferPos s) := c],
          bufferPos := bufferPos s + 1\<rparr>
      else s)"

lemma serial_loop_body: "serial (loop_body c s) = serial s"
  by (simp add: loop_body_def Let_def)

text \<open>
  Phase 1 of \<^verbatim>\<open>loop()\<close>: read while the receive queue is not empty. The queue holds
  every byte that the reads of this phase return.
\<close>

function drain :: "controller \<Rightarrow> controller" where
  "drain s =
     (case serial s of
        [] \<Rightarrow> s
      | c # cs \<Rightarrow> drain (loop_body c (s\<lparr>serial := cs\<rparr>)))"
  by pat_completeness auto
termination
  by (relation "measure (\<lambda>s. length (serial s))") (auto simp: serial_loop_body)

text \<open>The two \<^verbatim>\<open>for\<close> loops of phase 2, with every array access checked.\<close>

function render_palette_loop :: "int \<Rightarrow> int \<Rightarrow> controller \<Rightarrow> fault + controller" where
  "render_palette_loop i ledsPerBlock s =
     (if i < NUM_LEDS then
        (case c_div i ledsPerBlock of
           Inl e \<Rightarrow> Inl e
         | Inr idx0 \<Rightarrow>
             let idx = (if idx0 \<ge> paletteSize (rs s) then paletteSize (rs s) - 1 else idx0)
             in if idx < 0 \<or> idx \<ge> MAX_PALETTE \<or> i < 0 \<or> i \<ge> int (length (leds s))
                then Inl OutOfBounds
                else render_palette_loop (i + 1) ledsPerBlock
                       (s\<lparr>leds := (leds s)[nat i :=
                           CRGB_of_ints (paletteR (rs s) ! nat idx)
                                        (paletteG (rs s) ! nat idx)
                                        (paletteB (rs s) ! nat idx)]\<rparr>))
      else Inr s)"
  by pat_completeness auto
termination
  by (relation "measure (\<lambda>(i, ledsPerBlock, s). nat (NUM_LEDS - i))") auto

function render_flat_loop :: "int \<Rightarrow> controller \<Rightarrow> fault + controller" where
  "render_flat_loop i s =
     (if i < NUM_LEDS then
        if i < 0 \<or> i \<ge> int (length (leds s)) then Inl OutOfBounds
        else render_flat_loop (i + 1)
               (s\<lparr>leds := (leds s)[nat i :=
                   CRGB_of_ints (currentR (rs s)) (currentG (rs s)) (currentB (rs s))]\<rparr>)
      else Inr s)"
  by pat_completeness auto
termination
  by (relation "measure (\<lambda>(i, s). nat (NUM_LEDS - i))") auto

text \<open>
  Phase 2 of \<^verbatim>\<open>loop()\<close>: the block under \<^verbatim>\<open>if (needsUpdate)\<close>. \<^verbatim>\<open>FastLED.show()\<close> appends
  the frame buffer to the transmitted frames.
\<close>

definition render :: "controller \<Rightarrow> fault + controller" where
  "render s =
     (if needsUpdate (rs s) then
        (case (if paletteMode (rs s) \<and> paletteSize (rs s) > 0 then
                 (case c_div NUM_LEDS (paletteSize (rs s)) of
                    Inl e \<Rightarrow> Inl e
                  | Inr ledsPerBlock \<Rightarrow> render_palette_loop 0 ledsPerBlock s)
               else render_flat_loop 0 s) of
           Inl e \<Rightarrow> Inl e
         | Inr s1 \<Rightarrow>
             Inr (s1\<lparr>shown := shown s1 @ [leds s1],
                      rs := (rs s1)\<lparr>needsUpdate := False\<rparr>\<rparr>))
      else Inr s)"

definition loop :: "controller \<Rightarrow> fault + controller" where
  "loop s = render ((drain s)\<lparr>pin13 := False\<rparr>)"

text \<open>
  The states the sketch can be in between two calls of \<^verbatim>\<open>loop()\<close>: bytes arrive in the
  receive queue, then \<^verbatim>\<open>loop()\<close> runs.
\<close>

inductive reachable :: "controller \<Rightarrow> bool" where
  reachable_setup: "reachable setup_state"
| reachable_loop:
    "reachable s \<Longrightarrow> loop (s\<lparr>serial := serial s @ bytes\<rparr>) = Inr s' \<Longrightarrow> reachable s'"

section \<open>Reference notions of the specification\<close>

text \<open>
  The value of one hex digit as the specification describes it: a table of the 22 hex
  digits, upper and lower case, and zero for every other character.
\<close>

definition hex_digit_value :: "char \<Rightarrow> int" where
  "hex_digit_value c =
     (case map_of (zip ''0123456789ABCDEF'' [0..15] @ zip ''abcdef'' [10..15]) c of
        Some v \<Rightarrow> v
      | None \<Rightarrow> 0)"

text \<open>ASCII \<^verbatim>\<open>toupper\<close>, to state that decoding ignores the case of letters.\<close>

definition toupper :: "char \<Rightarrow> char" where
  "toupper c =
     (if ord (CHR ''a'') \<le> ord c \<and> ord c \<le> ord (CHR ''z'') then char_of (ord c - 32) else c)"

text \<open>A stored channel value is a byte.\<close>

definition channel_ok :: "int \<Rightarrow> bool" where
  "channel_ok x = (0 \<le> x \<and> x \<le> 255)"

definition channels_inv :: "render_state \<Rightarrow> bool" where
  "channels_inv s =
     (channel_ok (currentR s) \<and> channel_ok (currentG s) \<and> channel_ok (currentB s)
      \<and> list_all channel_ok (paletteR s) \<and> list_all channel_ok (paletteG s)
      \<and> list_all channel_ok (paletteB s))"

text \<open>
  The Frame Compositor as the specification states it: in palette mode pixel \<open>i\<close> takes
  the palette entry \<open>min (i / blockSize) (paletteSize - 1)\<close> with
  \<open>blockSize = NUM_LEDS / paletteSize\<close>; in flat mode every pixel is the stored colour.
\<close>

definition palette_index :: "int \<Rightarrow> int \<Rightarrow> int" where
  "palette_index n i = min (i div (NUM_LEDS div n)) (n - 1)"

definition palette_pixel :: "render_state \<Rightarrow> int \<Rightarrow> CRGB" where
  "palette_pixel s i =
     (let idx = nat (palette_index (paletteSize s) i)
      in CRGB_of_ints (paletteR s ! idx) (paletteG s ! idx) (paletteB s ! idx))"

definition flat_pixel :: "render_state \<Rightarrow> CRGB" where
  "flat_pixel s = CRGB_of_ints (currentR s) (currentG s) (currentB s)"

definition frame_of :: "render_state \<Rightarrow> CRGB list" where
  "frame_of s =
     (if paletteMode s \<and> paletteSize s > 0
      then map (palette_pixel s) [0..NUM_LEDS - 1]
      else replicate (nat NUM_LEDS) (flat_pixel s))"

text \<open>
  The Framer as the specification states it. The line accumulated so far is the part of
  the buffer below the write position. \<open>complete_lines cur bytes\<close> are the lines that
  \<open>bytes\<close> complete, in order, when \<open>cur\<close> is already accumulated: a line ends at
  \<^verbatim>\<open>\n\<close> or \<^verbatim>\<open>\r\<close>; what follows the last terminator is not a complete line.
\<close>

definition pending :: "controller \<Rightarrow> string" where
  "pending s = take (nat (bufferPos s)) (inputBuffer s)"

fun complete_lines :: "string \<Rightarrow> string \<Rightarrow> string list" where
  "complete_lines cur [] = []"
| "complete_lines cur (c # cs) =
     (if c = LF \<or> c = CR then cur # complete_lines [] cs else complete_lines (cur @ [c]) cs)"

text \<open>
  What one complete line does to the render state: an empty line does nothing; otherwise
  the first 510 characters, read as a C string, go to the palette parser when they start
  with \<^verbatim>\<open>P:\<close> and to the single-colour parser when they do not.
\<close>

definition deliver :: "string \<Rightarrow> render_state \<Rightarrow> render_state" where
  "deliver l r =
     (if l = [] then r
      else let d = cstr (take 510 l)
           in if take 2 d = ''P:'' then parsePalette d r else parseSingle d r)"

text \<open>Shape invariants of the globals: array sizes, the write position, the palette size.\<close>

definition palette_inv :: "render_state \<Rightarrow> bool" where
  "palette_inv r =
     (0 \<le> paletteSize r \<and> paletteSize r \<le> MAX_PALETTE
      \<and> int (length (paletteR r)) = MAX_PALETTE
      \<and> int (length (paletteG r)) = MAX_PALETTE
      \<and> int (length (paletteB r)) = MAX_PALETTE)"

definition ctrl_inv :: "controller \<Rightarrow> bool" where
  "ctrl_inv s =
     (int (length (leds s)) = NUM_LEDS
      \<and> int (length (inputBuffer s)) = BUFFER_SIZE
      \<and> 0 \<le> bufferPos s \<and> bufferPos s \<le> 510
      \<and> palette_inv (rs s))"

text \<open>
  The shape of a flat-colour line as the specification states it: exactly three
  comma-separated integers. A field is an integer when, after optional white space, it is
  an optional sign followed by one or more digits and nothing else.
\<close>

definition int_literal :: "string \<Rightarrow> bool" where
  "int_literal l =
     (let ds = (case l of [] \<Rightarrow> l | c # r \<Rightarrow> if c = CHR ''-'' \<or> c = CHR ''+'' then r else l)
      in ds \<noteq> [] \<and> list_all isdigit ds)"

definition int_field :: "string \<Rightarrow> bool" where
  "int_field f = int_literal (dropWhile isspace f)"

definition field_value :: "string \<Rightarrow> int" where
  "field_value f =
     (case dropWhile isspace f of
        [] \<Rightarrow> 0
      | c # r \<Rightarrow> if c = CHR ''-'' then - digits_value r
                 else if c = CHR ''+'' then digits_value r
                 else digits_value (c # r))"

fun split_commas :: "string \<Rightarrow> string list" where
  "split_commas [] = [[]]"
| "split_commas (c # cs) =
     (if c = CHR '','' then [] # split_commas cs
      else (case split_commas cs of [] \<Rightarrow> [[c]] | f # fs \<Rightarrow> (c # f) # fs))"

definition three_ints :: "string \<Rightarrow> bool" where
  "three_ints p =
     (case split_commas p of
        [a, b, c] \<Rightarrow> int_field a \<and> int_field b \<and> int_field c
      | _ \<Rightarrow> False)"

text \<open>The command a sender writes for the colour \<open>(r, g, b)\<close>, in plain decimal.\<close>

definition digit_char :: "nat \<Rightarrow> char" where
  "digit_char d = char_of (48 + d)"

fun decimal :: "nat \<Rightarrow> string" where
  "decimal n = (if n < 10 then [digit_char n] else decimal (n div 10) @ [digit_char (n mod 10)])"

definition flat_command :: "nat \<Rightarrow> nat \<Rightarrow> nat \<Rightarrow> string" where
  "flat_command r g b = decimal r @ '','' @ decimal g @ '','' @ decimal b"

text \<open>Two states used as examples below.\<close>

definition three_colours :: controller where
  "three_colours = setup_state\<lparr>rs := parsePalette ''P:3:FF0000:00FF00:0000FF'' (rs setup_state)\<rparr>"

definition oversized :: controller where
  "oversized = setup_state\<lparr>rs := (rs setup_state)\<lparr>paletteMode := True, paletteSize := 300,
                                                needsUpdate := True\<rparr>\<rparr>"

text \<open>Inputs used as examples below.\<close>

definition example_burst :: string where
  "example_burst =
     ''255,0,0'' @ [LF] @ ''P:2:00FF00:0000FF'' @ [CR, LF] @ ''garbage'' @ [LF] @ ''10,20,30'' @ [LF]"

definition good_palette :: string where
  "good_palette = ''P:2:00FF00:0000FF''"

definition short_palette :: string where
  "short_palette = ''P:2:FF0000''"

section \<open>Unfolding of the loops\<close>

text \<open>
  The loop equations are unfolded by hand, one iteration at a time.
\<close>

declare bit_width.simps [simp del]
declare parsePalette_loop.simps [simp del]
declare render_palette_loop.simps [simp del]
declare render_flat_loop.simps [simp del]
declare drain.simps [simp del]
declare decimal.simps [simp del]

section \<open>Characters\<close>

lemma ord_range: "0 \<le> ord c \<and> ord c \<le> 255"
proof -
  have "(of_char c :: nat) < 256" by simp
  then have "0 \<le> int (of_char c) \<and> int (of_char c) \<le> 255" by linarith
  then show ?thesis by (simp add: ord_def of_nat_of_char)
qed

lemma char_eq_ord: "(c = d) = (ord c = ord d)"
  by (simp add: ord_def)

lemma ord_Char:
  "ord (Char b0 b1 b2 b3 b4 b5 b6 b7) = horner_sum of_bool 2 [b0, b1, b2, b3, b4, b5, b6, b7]"
  by (simp add: ord_def)

section \<open>Calibration in binary32\<close>

text \<open>The constant for \<^verbatim>\<open>0.90\<close> is within half a unit in the last place of \<open>9/10\<close>.\<close>

lemma BLUE_FACTOR_nearest:
  "\<bar>(9 / 10 :: real) - real_of_int BLUE_FACTOR / 2 ^ 24\<bar> \<le> 1 / 2 ^ 25"
  by (simp add: BLUE_FACTOR_def)

lemma bit_width_le: "p < 2 ^ k \<Longrightarrow> bit_width p \<le> k"
proof (induction k arbitrary: p)
  case 0
  then show ?case by (subst bit_width.simps) simp
next
  case (Suc k)
  show ?case
  proof (cases "p \<le> 0")
    case True
    then show ?thesis by (subst bit_width.simps) simp
  next
    case False
    from Suc.prems have "p div 2 < 2 ^ k" by simp
    then have "bit_width (p div 2) \<le> k" by (rule Suc.IH)
    with False show ?thesis by (subst bit_width.simps) simp
  qed
qed

text \<open>An integer below \<open>2 ^ 24\<close> converts to \<^verbatim>\<open>float\<close> exactly.\<close>

lemma round24_small: "p < 2 ^ 24 \<Longrightarrow> round24 p = p"
  using bit_width_le [of p 24] by (simp add: round24_def Let_def)

text \<open>A product whose low 22 bits are zero needs no rounding.\<close>

lemma round24_exact:
  assumes "p < 2 ^ 46" "2 ^ 22 dvd p"
  shows "round24 p = p"
proof -
  define e where "e = bit_width p - 24"
  have "bit_width p \<le> 46" using assms(1) by (rule bit_width_le)
  then have "e \<le> 22" by (simp add: e_def)
  then have "(2::int) ^ e dvd 2 ^ 22" by (rule le_imp_power_dvd)
  then have d: "2 ^ e dvd p" using assms(2) by (rule dvd_trans)
  then have "p mod 2 ^ e = 0" "p div 2 ^ e * 2 ^ e = p" by simp_all
  then show ?thesis
    by (simp add: round24_def Let_def e_def [symmetric])
qed

lemma calibrate_RED:
  assumes "0 \<le> v" "v \<le> 255"
  shows "calibrate v RED_FACTOR = v"
proof -
  have a: "round24 \<bar>v\<bar> = v" using assms by (simp add: round24_small)
  have "round24 (v * 2 ^ 24) = v * 2 ^ 24"
    using assms by (intro round24_exact) simp_all
  then have "round24 (v * RED_FACTOR) div 2 ^ 24 = v" by (simp add: RED_FACTOR_def)
  with assms a show ?thesis by (simp add: calibrate_def sgn_if)
qed

lemma calibrate_GREEN:
  assumes "0 \<le> v" "v \<le> 255"
  shows "calibrate v GREEN_FACTOR = (3 * v) div 4"
proof -
  have a: "round24 \<bar>v\<bar> = v" using assms by (simp add: round24_small)
  have "round24 (v * GREEN_FACTOR) = v * GREEN_FACTOR"
    using assms by (intro round24_exact) (simp_all add: GREEN_FACTOR_def)
  moreover have "v * GREEN_FACTOR div 2 ^ 24 = (3 * v) div 4"
    by (simp add: GREEN_FACTOR_def)
  ultimately show ?thesis using assms a by (simp add: calibrate_def sgn_if)
qed

text \<open>
  \<^verbatim>\<open>0.90\<close> is not a binary fraction, so the products are rounded; the 256 byte values
  are evaluated one by one.
\<close>

lemma calibrate_BLUE_all: "list_all (\<lambda>v. calibrate v BLUE_FACTOR = (9 * v) div 10) [0..255]"
  by code_simp

lemma calibrate_BLUE:
  assumes "0 \<le> v" "v \<le> 255"
  shows "calibrate v BLUE_FACTOR = (9 * v) div 10"
proof -
  have "v \<in> set [0..255]"
    using assms by (simp only: set_upto atLeastAtMost_iff)
  then show ?thesis
    using calibrate_BLUE_all unfolding list_all_iff by blast
qed

text \<open>
  For a byte, the binary32 computation gives the truncated exact product with the
  decimal factor.
\<close>

lemma calibrate_real:
  assumes "0 \<le> v" "v \<le> 255"
  shows "calibrate v RED_FACTOR = \<lfloor>real_of_int v * 1.00\<rfloor>"
    and "calibrate v GREEN_FACTOR = \<lfloor>real_of_int v * 0.75\<rfloor>"
    and "calibrate v BLUE_FACTOR = \<lfloor>real_of_int v * 0.90\<rfloor>"
proof -
  show "calibrate v RED_FACTOR = \<lfloor>real_of_int v * 1.00\<rfloor>"
    using assms by (simp add: calibrate_RED)
  have g: "real_of_int v * 0.75 = real_of_int (3 * v) / real_of_int 4" by simp
  have "\<lfloor>real_of_int v * 0.75\<rfloor> = (3 * v) div 4"
    unfolding g by (rule floor_divide_of_int_eq)
  then show "calibrate v GREEN_FACTOR = \<lfloor>real_of_int v * 0.75\<rfloor>"
    using assms by (simp add: calibrate_GREEN)
  have b: "real_of_int v * 0.90 = real_of_int (9 * v) / real_of_int 10" by simp
  have "\<lfloor>real_of_int v * 0.90\<rfloor> = (9 * v) div 10"
    unfolding b by (rule floor_divide_of_int_eq)
  then show "calibrate v BLUE_FACTOR = \<lfloor>real_of_int v * 0.90\<rfloor>"
    using assms by (simp add: calibrate_BLUE)
qed

lemma calibrate_ok:
  assumes "channel_ok v"
  shows "channel_ok (calibrate v RED_FACTOR)" "channel_ok (calibrate v GREEN_FACTOR)"
    "channel_ok (calibrate v BLUE_FACTOR)"
proof -
  from assms have v: "0 \<le> v" "v \<le> 255" by (simp_all add: channel_ok_def)
  show "channel_ok (calibrate v RED_FACTOR)"
    using v by (simp add: channel_ok_def calibrate_RED)
  have "0 \<le> (3 * v) div 4 \<and> (3 * v) div 4 \<le> 255" using v by presburger
  then show "channel_ok (calibrate v GREEN_FACTOR)"
    using v by (simp add: channel_ok_def calibrate_GREEN)
  have "0 \<le> (9 * v) div 10 \<and> (9 * v) div 10 \<le> 255" using v by presburger
  then show "channel_ok (calibrate v BLUE_FACTOR)"
    using v by (simp add: channel_ok_def calibrate_BLUE)
qed

lemma constrain_ok: "channel_ok (constrain v 0 255)"
  by (simp add: channel_ok_def constrain_def)

section \<open>Hex decoding\<close>

lemma upto_0_15: "[0..15] = [0, 1, 2, 3, 4, 5, 6, 7, 8, 9, 10, 11, 12, 13, 14, 15 :: int]"
  by code_simp

lemma upto_10_15: "[10..15] = [10, 11, 12, 13, 14, 15 :: int]"
  by code_simp

text \<open>The table agrees with the three ASCII ranges that the sketch tests.\<close>

lemma hex_digit_value_ranges:
  "hex_digit_value c =
     (if 48 \<le> ord c \<and> ord c \<le> 57 then ord c - 48
      else if 65 \<le> ord c \<and> ord c \<le> 70 then ord c - 65 + 10
      else if 97 \<le> ord c \<and> ord c \<le> 102 then ord c - 97 + 10
      else 0)"
  unfolding hex_digit_value_def upto_0_15 upto_10_15
  apply (simp add: char_eq_ord ord_Char del: of_char_eq_iff)
  apply presburger
  done

lemma hex_digit_value_bounds: "0 \<le> hex_digit_value c \<and> hex_digit_value c < 16"
  by (simp add: hex_digit_value_ranges)

lemma nibble_cases:
  "0 \<le> a \<Longrightarrow> a < 16 \<Longrightarrow> (a::int) \<in> {0, 1, 2, 3, 4, 5, 6, 7, 8, 9, 10, 11, 12, 13, 14, 15}"
  by simp presburger

text \<open>Shifting the high nibble and or-ing the low one in is \<open>16 * a + b\<close>.\<close>

lemma push4_or:
  assumes "0 \<le> a" "a < 16" "0 \<le> b" "b < 16"
  shows "push_bit 4 a OR b = 16 * a + (b::int)"
  using nibble_cases [OF assms(1,2)] nibble_cases [OF assms(3,4)]
  by (elim insertE emptyE) simp_all

lemma hexToByte_nibbles:
  "hexToByte hi lo = push_bit 4 (hex_digit_value hi) OR hex_digit_value lo"
  by (simp add: hexToByte_def hex_digit_value_ranges ord_Char Let_def)

lemma hexToByte_value: "hexToByte hi lo = 16 * hex_digit_value hi + hex_digit_value lo"
proof -
  have hi: "0 \<le> hex_digit_value hi" "hex_digit_value hi < 16"
    and lo: "0 \<le> hex_digit_value lo" "hex_digit_value lo < 16"
    using hex_digit_value_bounds by blast+
  show ?thesis
    by (simp add: hexToByte_nibbles push4_or [OF hi lo])
qed

lemma hexToByte_range: "0 \<le> hexToByte hi lo \<and> hexToByte hi lo \<le> 255"
  using hex_digit_value_bounds [of hi] hex_digit_value_bounds [of lo]
  by (simp add: hexToByte_value)

lemma hexToByte_ok: "channel_ok (hexToByte hi lo)"
  using hexToByte_range by (simp add: channel_ok_def)

lemma toupper_digit: "hex_digit_value (toupper c) = hex_digit_value c"
proof -
  have "0 \<le> ord c \<and> ord c \<le> 255" by (rule ord_range)
  then show ?thesis
    by (simp add: toupper_def hex_digit_value_ranges ord_Char ord_def)
qed

text \<open>
  Claim C8. Hex decoding of a two-character group is total and case-insensitive: for
  every pair of characters the result is \<open>16 * h + l\<close>, where \<open>h\<close> and \<open>l\<close> are the hex
  values of the two characters and a character that is no hex digit counts as zero; the
  result lies in \<open>[0, 255]\<close>, and changing the case of the characters does not change it.
\<close>

theorem hexToByte_decodes:
  "hexToByte hi lo = 16 * hex_digit_value hi + hex_digit_value lo
   \<and> 0 \<le> hexToByte hi lo \<and> hexToByte hi lo \<le> 255
   \<and> hexToByte (toupper hi) (toupper lo) = hexToByte hi lo"
proof -
  have up: "hexToByte (toupper hi) (toupper lo) = hexToByte hi lo"
    by (simp add: hexToByte_nibbles toupper_digit)
  from hexToByte_value [of hi lo] hexToByte_range [of hi lo] up show ?thesis by simp
qed

theorem hexToByte_decodes_witness:
  "hexToByte (CHR ''f'') (CHR ''F'') = 255 \<and> hexToByte (CHR ''1'') (CHR ''g'') = 16
   \<and> hexToByte (CHR ''z'') (CHR ''a'') = 10"
  using hexToByte_decodes [of "CHR ''f''" "CHR ''F''"]
    hexToByte_decodes [of "CHR ''1''" "CHR ''g''"]
    hexToByte_decodes [of "CHR ''z''" "CHR ''a''"]
  by (simp add: hex_digit_value_def upto_0_15 upto_10_15)

section \<open>The parsers keep every stored channel a byte\<close>

lemma list_all_update: "list_all P xs \<Longrightarrow> P v \<Longrightarrow> list_all P (xs[i := v])"
  using set_update_subset_insert [of xs i v] by (auto simp: list_all_iff)

lemma channels_inv_commit:
  "channels_inv (s\<lparr>paletteSize := n, paletteMode := m, needsUpdate := u\<rparr>) = channels_inv s"
  by (simp add: channels_inv_def)

lemma parsePalette_loop_inv:
  "channels_inv s \<Longrightarrow> channels_inv (case_sum id id (parsePalette_loop i n ptr s))"
proof (induction i n ptr s rule: parsePalette_loop.induct)
  case (1 i n ptr s)
  show ?case
  proof (cases "i < n \<and> \<not> length ptr < 6")
    case True
    have "channels_inv (s\<lparr>paletteR := (paletteR s)[nat i := calibrate (hexToByte (ptr ! 0) (ptr ! 1)) RED_FACTOR],
        paletteG := (paletteG s)[nat i := calibrate (hexToByte (ptr ! 2) (ptr ! 3)) GREEN_FACTOR],
        paletteB := (paletteB s)[nat i := calibrate (hexToByte (ptr ! 4) (ptr ! 5)) BLUE_FACTOR]\<rparr>)"
      using "1.prems" by (simp add: channels_inv_def list_all_update calibrate_ok hexToByte_ok)
    with True "1.IH" show ?thesis
      by (subst parsePalette_loop.simps) (simp add: Let_def)
  next
    case False
    with "1.prems" show ?thesis
      by (subst parsePalette_loop.simps) auto
  qed
qed

lemma parsePalette_inv: "channels_inv s \<Longrightarrow> channels_inv (parsePalette data s)"
proof -
  assume inv: "channels_inv s"
  have a: "channels_inv (case_sum id id (parsePalette_loop 0 n ptr s))" for n ptr
    using inv by (rule parsePalette_loop_inv)
  have "channels_inv (case parsePalette_loop 0 n ptr s of Inl s1 \<Rightarrow> s1
        | Inr s1 \<Rightarrow> s1\<lparr>paletteSize := n, paletteMode := True, needsUpdate := True\<rparr>)" for n ptr
    using a [of n ptr]
    by (cases "parsePalette_loop 0 n ptr s") (simp_all add: channels_inv_commit)
  with inv show ?thesis
    by (simp add: parsePalette_def Let_def split: option.splits)
qed

lemma parseSingle_inv: "channels_inv s \<Longrightarrow> channels_inv (parseSingle data s)"
  by (auto simp: parseSingle_def channels_inv_def calibrate_ok constrain_ok split: list.splits)

section \<open>Rendering, framing and the main loop in closed form\<close>

lemma c_div_nonneg: "0 \<le> a \<Longrightarrow> 0 < b \<Longrightarrow> c_div a b = Inr (a div b)"
  by (simp add: c_div_def sgn_if)

lemma take_update_snoc:
  "n < length xs \<Longrightarrow> take (Suc n) (xs[n := v]) = take n xs @ [v]"
  by (simp add: take_Suc_conv_app_nth)

lemma render_flat_loop_closed:
  assumes "0 \<le> i" "i \<le> NUM_LEDS" "int (length (leds s)) = NUM_LEDS"
  shows "render_flat_loop i s =
           Inr (s\<lparr>leds := take (nat i) (leds s) @ replicate (nat (NUM_LEDS - i)) (flat_pixel (rs s))\<rparr>)"
  using assms
proof (induction i s rule: render_flat_loop.induct)
  case (1 i s)
  show ?case
  proof (cases "i < NUM_LEDS")
    case True
    let ?s1 = "s\<lparr>leds := (leds s)[nat i := flat_pixel (rs s)]\<rparr>"
    have len: "nat i < length (leds s)" using True "1.prems" by linarith
    have ih: "render_flat_loop (i + 1) ?s1 =
        Inr (?s1\<lparr>leds := take (nat (i + 1)) (leds ?s1) @ replicate (nat (NUM_LEDS - (i + 1))) (flat_pixel (rs ?s1))\<rparr>)"
      using True "1.prems" "1.IH" by (simp add: flat_pixel_def)
    have n1: "nat (i + 1) = Suc (nat i)" using "1.prems" by simp
    have n2: "nat (NUM_LEDS - i) = Suc (nat (NUM_LEDS - (i + 1)))" using True by simp
    have "take (nat (i + 1)) (leds ?s1) @ replicate (nat (NUM_LEDS - (i + 1))) (flat_pixel (rs ?s1))
        = take (nat i) (leds s) @ replicate (nat (NUM_LEDS - i)) (flat_pixel (rs s))"
      unfolding n1 n2 using len by (simp add: take_update_snoc)
    with ih True "1.prems" show ?thesis
      by (subst render_flat_loop.simps) (simp add: flat_pixel_def)
  next
    case False
    with "1.prems" have "i = NUM_LEDS" by simp
    with "1.prems" show ?thesis
      by (subst render_flat_loop.simps) simp
  qed
qed

lemma render_palette_loop_closed:
  assumes "0 \<le> i" "i \<le> NUM_LEDS" "int (length (leds s)) = NUM_LEDS"
    and "1 \<le> paletteSize (rs s)" "paletteSize (rs s) \<le> MAX_PALETTE"
    and "b = NUM_LEDS div paletteSize (rs s)"
  shows "render_palette_loop i b s =
           Inr (s\<lparr>leds := take (nat i) (leds s) @ map (palette_pixel (rs s)) [i..NUM_LEDS - 1]\<rparr>)"
  using assms
proof (induction i b s rule: render_palette_loop.induct)
  case (1 i b s)
  have b: "0 < b"
    using "1.prems" by (simp add: NUM_LEDS_def MAX_PALETTE_def pos_imp_zdiv_pos_iff)
  show ?case
  proof (cases "i < NUM_LEDS")
    case True
    have cd: "c_div i b = Inr (i div b)" using "1.prems" b by (simp add: c_div_nonneg)
    let ?idx = "if i div b \<ge> paletteSize (rs s) then paletteSize (rs s) - 1 else i div b"
    have idx: "?idx = palette_index (paletteSize (rs s)) i"
      using "1.prems" by (auto simp: palette_index_def min_def)
    have "0 \<le> i div b" using "1.prems" b by (simp add: pos_imp_zdiv_nonneg_iff)
    then have idx_ok: "\<not> (?idx < 0 \<or> ?idx \<ge> MAX_PALETTE \<or> i < 0 \<or> i \<ge> int (length (leds s)))"
      using "1.prems" True by auto
    have len: "nat i < length (leds s)" using True "1.prems" by linarith
    have pix: "CRGB_of_ints (paletteR (rs s) ! nat ?idx) (paletteG (rs s) ! nat ?idx)
        (paletteB (rs s) ! nat ?idx) = palette_pixel (rs s) i"
      unfolding idx by (simp add: palette_pixel_def Let_def)
    let ?s1 = "s\<lparr>leds := (leds s)[nat i := palette_pixel (rs s) i]\<rparr>"
    have step: "render_palette_loop i b s = render_palette_loop (i + 1) b ?s1"
      by (subst render_palette_loop.simps) (simp only: True cd idx_ok pix Let_def if_True if_False sum.case)
    have ih: "render_palette_loop (i + 1) b ?s1 =
        Inr (?s1\<lparr>leds := take (nat (i + 1)) (leds ?s1) @ map (palette_pixel (rs ?s1)) [i + 1..NUM_LEDS - 1]\<rparr>)"
      using "1.IH" [OF True cd refl idx_ok] True "1.prems" unfolding pix by simp
    have n1: "nat (i + 1) = Suc (nat i)" using "1.prems" by simp
    have n2: "[i..NUM_LEDS - 1] = i # [i + 1..NUM_LEDS - 1]" using True by (simp add: upto_rec1)
    have "take (nat (i + 1)) (leds ?s1) @ map (palette_pixel (rs ?s1)) [i + 1..NUM_LEDS - 1]
        = take (nat i) (leds s) @ map (palette_pixel (rs s)) [i..NUM_LEDS - 1]"
      unfolding n1 n2 using len by (simp add: take_update_snoc)
    with ih step show ?thesis by simp
  next
    case False
    with "1.prems" have "i = NUM_LEDS" by simp
    with "1.prems" show ?thesis
      by (subst render_palette_loop.simps) simp
  qed
qed


lemma render_closed:
  assumes "int (length (leds s)) = NUM_LEDS"
    and "0 \<le> paletteSize (rs s)" "paletteSize (rs s) \<le> MAX_PALETTE"
  shows "render s =
      Inr (if needsUpdate (rs s)
           then s\<lparr>leds := frame_of (rs s), shown := shown s @ [frame_of (rs s)],
                  rs := (rs s)\<lparr>needsUpdate := False\<rparr>\<rparr>
           else s)"
proof (cases "needsUpdate (rs s)")
  case False
  then show ?thesis by (simp add: render_def)
next
  case nu: True
  show ?thesis
  proof (cases "paletteMode (rs s) \<and> paletteSize (rs s) > 0")
    case True
    then have ps: "1 \<le> paletteSize (rs s)" by simp
    have cd: "c_div NUM_LEDS (paletteSize (rs s)) = Inr (NUM_LEDS div paletteSize (rs s))"
      using ps by (simp add: c_div_nonneg NUM_LEDS_def)
    have "render_palette_loop 0 (NUM_LEDS div paletteSize (rs s)) s =
        Inr (s\<lparr>leds := take (nat 0) (leds s) @ map (palette_pixel (rs s)) [0..NUM_LEDS - 1]\<rparr>)"
      using assms ps by (intro render_palette_loop_closed) (simp_all add: NUM_LEDS_def)
    with True nu cd show ?thesis
      by (simp add: render_def frame_of_def)
  next
    case False
    have "render_flat_loop 0 s =
        Inr (s\<lparr>leds := take (nat 0) (leds s) @ replicate (nat (NUM_LEDS - 0)) (flat_pixel (rs s))\<rparr>)"
      using assms by (intro render_flat_loop_closed) (simp_all add: NUM_LEDS_def)
    with False nu show ?thesis
      by (auto simp: render_def frame_of_def)
  qed
qed

lemma length_frame_of: "int (length (frame_of r)) = NUM_LEDS"
  by (simp add: frame_of_def NUM_LEDS_def)


lemma parsePalette_loop_frame:
  "\<exists>pr pg pb. length pr = length (paletteR s) \<and> length pg = length (paletteG s)
      \<and> length pb = length (paletteB s)
      \<and> case_sum id id (parsePalette_loop i n ptr s) = s\<lparr>paletteR := pr, paletteG := pg, paletteB := pb\<rparr>"
proof (induction i n ptr s rule: parsePalette_loop.induct)
  case (1 i n ptr s)
  show ?case
  proof (cases "i < n \<and> \<not> length ptr < 6")
    case True
    let ?s3 = "s\<lparr>paletteR := (paletteR s)[nat i := calibrate (hexToByte (ptr ! 0) (ptr ! 1)) RED_FACTOR],
        paletteG := (paletteG s)[nat i := calibrate (hexToByte (ptr ! 2) (ptr ! 3)) GREEN_FACTOR],
        paletteB := (paletteB s)[nat i := calibrate (hexToByte (ptr ! 4) (ptr ! 5)) BLUE_FACTOR]\<rparr>"
    let ?p2 = "case drop 6 ptr of [] \<Rightarrow> drop 6 ptr | c # r \<Rightarrow> if c = CHR '':'' then r else drop 6 ptr"
    have step: "parsePalette_loop i n ptr s = parsePalette_loop (i + 1) n ?p2 ?s3"
      using True by (subst parsePalette_loop.simps) (simp add: Let_def)
    from True have a: "i < n" and b: "\<not> length ptr < 6" by auto
    from "1.IH" [OF a b refl refl refl refl refl]
    obtain pr pg pb where "length pr = length (paletteR ?s3)" "length pg = length (paletteG ?s3)"
      "length pb = length (paletteB ?s3)"
      "case_sum id id (parsePalette_loop (i + 1) n ?p2 ?s3) = ?s3\<lparr>paletteR := pr, paletteG := pg, paletteB := pb\<rparr>"
      by auto
    then show ?thesis unfolding step by (intro exI [of _ pr] exI [of _ pg] exI [of _ pb]) simp
  next
    case False
    then have "case_sum id id (parsePalette_loop i n ptr s) = s"
      by (subst parsePalette_loop.simps) auto
    then show ?thesis
      by (intro exI [of _ "paletteR s"] exI [of _ "paletteG s"] exI [of _ "paletteB s"]) simp
  qed
qed

lemma parsePalette_frame:
  "\<exists>pr pg pb n m u. length pr = length (paletteR s) \<and> length pg = length (paletteG s)
      \<and> length pb = length (paletteB s)
      \<and> (n = paletteSize s \<or> (1 \<le> n \<and> n \<le> MAX_PALETTE))
      \<and> parsePalette data s =
          s\<lparr>paletteR := pr, paletteG := pg, paletteB := pb, paletteSize := n, paletteMode := m, needsUpdate := u\<rparr>"
proof -
  define n where "n = atoi (drop 2 data)"
  have triv: "\<exists>pr pg pb n m u. length pr = length (paletteR s) \<and> length pg = length (paletteG s)
      \<and> length pb = length (paletteB s)
      \<and> (n = paletteSize s \<or> (1 \<le> n \<and> n \<le> MAX_PALETTE))
      \<and> s = s\<lparr>paletteR := pr, paletteG := pg, paletteB := pb, paletteSize := n, paletteMode := m, needsUpdate := u\<rparr>"
    by (intro exI [of _ "paletteR s"] exI [of _ "paletteG s"] exI [of _ "paletteB s"]
        exI [of _ "paletteSize s"] exI [of _ "paletteMode s"] exI [of _ "needsUpdate s"]) simp
  show ?thesis
  proof (cases "n < 1 \<or> n > MAX_PALETTE")
    case True
    then have "parsePalette data s = s" by (simp add: parsePalette_def n_def Let_def)
    with triv show ?thesis by simp
  next
    case range: False
    show ?thesis
    proof (cases "strchr (drop 2 data) (CHR '':'')")
      case None
      then have "parsePalette data s = s" by (simp add: parsePalette_def n_def Let_def)
      with triv show ?thesis by simp
    next
      case (Some p)
      obtain pr pg pb where len: "length pr = length (paletteR s)" "length pg = length (paletteG s)"
        "length pb = length (paletteB s)"
        and eq: "case_sum id id (parsePalette_loop 0 n (tl p) s) = s\<lparr>paletteR := pr, paletteG := pg, paletteB := pb\<rparr>"
        using parsePalette_loop_frame [of s 0 n "tl p"] by blast
      show ?thesis
      proof (cases "parsePalette_loop 0 n (tl p) s")
        case (Inl s1)
        with eq range Some have "parsePalette data s = s\<lparr>paletteR := pr, paletteG := pg, paletteB := pb,
            paletteSize := paletteSize s, paletteMode := paletteMode s, needsUpdate := needsUpdate s\<rparr>"
          by (simp add: parsePalette_def n_def [symmetric] Let_def)
        with len show ?thesis by blast
      next
        case (Inr s1)
        with eq range Some have "parsePalette data s = s\<lparr>paletteR := pr, paletteG := pg, paletteB := pb,
            paletteSize := n, paletteMode := True, needsUpdate := True\<rparr>"
          by (simp add: parsePalette_def n_def [symmetric] Let_def)
        with len range show ?thesis by (intro exI [of _ pr] exI [of _ pg] exI [of _ pb] exI [of _ n] exI [of _ True]) auto
      qed
    qed
  qed
qed

lemma parsePalette_palette_inv: "palette_inv r \<Longrightarrow> palette_inv (parsePalette data r)"
proof -
  assume inv: "palette_inv r"
  obtain pr pg pb n m u where "length pr = length (paletteR r)" "length pg = length (paletteG r)"
    "length pb = length (paletteB r)" "n = paletteSize r \<or> (1 \<le> n \<and> n \<le> MAX_PALETTE)"
    "parsePalette data r = r\<lparr>paletteR := pr, paletteG := pg, paletteB := pb, paletteSize := n,
        paletteMode := m, needsUpdate := u\<rparr>"
    using parsePalette_frame [of r data] by blast
  with inv show ?thesis by (auto simp: palette_inv_def)
qed

lemma parseSingle_palette_inv: "palette_inv r \<Longrightarrow> palette_inv (parseSingle data r)"
  by (auto simp: parseSingle_def palette_inv_def split: list.splits)


lemma loop_body_upd_serial: "loop_body c (s\<lparr>serial := x\<rparr>) = (loop_body c s)\<lparr>serial := x\<rparr>"
  by (simp add: loop_body_def Let_def)

lemma fold_loop_body_serial: "serial (fold loop_body bs s) = serial s"
  by (induction bs arbitrary: s) (simp_all add: serial_loop_body)

lemma drain_fold: "drain s = fold loop_body (serial s) (s\<lparr>serial := []\<rparr>)"
proof (induction s rule: drain.induct)
  case (1 s)
  show ?case
  proof (cases "serial s")
    case Nil
    then have "s\<lparr>serial := []\<rparr> = s" by simp
    with Nil show ?thesis by (subst drain.simps) simp
  next
    case (Cons c cs)
    have "drain s = drain (loop_body c (s\<lparr>serial := cs\<rparr>))"
      using Cons by (subst drain.simps) simp
    also have "\<dots> = fold loop_body cs ((loop_body c (s\<lparr>serial := cs\<rparr>))\<lparr>serial := []\<rparr>)"
      using "1.IH" [OF Cons] by (simp add: serial_loop_body)
    also have "\<dots> = fold loop_body (c # cs) (s\<lparr>serial := []\<rparr>)"
      by (simp add: loop_body_upd_serial)
    finally show ?thesis using Cons by simp
  qed
qed

lemma loop_body_leds: "leds (loop_body c s) = leds s" "shown (loop_body c s) = shown s"
  by (simp_all add: loop_body_def Let_def)

lemma takeWhile_stop: "\<not> P y \<Longrightarrow> takeWhile P (xs @ y # ys) = takeWhile P xs"
  by (induction xs) auto

lemma cstr_update_NUL:
  "p < length buf \<Longrightarrow> cstr (buf[p := NUL]) = cstr (take p buf)"
  by (simp add: cstr_def upd_conv_take_nth_drop takeWhile_stop)

lemma dispatch_eq:
  assumes "0 < p" "p < length buf"
  shows "(buf[p := NUL] ! 0 = CHR ''P'' \<and> buf[p := NUL] ! Suc 0 = CHR '':'')
         = (take 2 (cstr (take p buf)) = ''P:'')"
proof -
  have split: "buf[p := NUL] = take p buf @ NUL # drop (Suc p) buf"
    using assms by (simp add: upd_conv_take_nth_drop)
  have lp: "length (take p buf) = p" using assms by simp
  show ?thesis
  proof (cases "take p buf")
    case Nil
    with lp assms show ?thesis by simp
  next
    case (Cons a r)
    note c1 = Cons
    show ?thesis
    proof (cases r)
      case Nil
      with c1 split show ?thesis by (auto simp: cstr_def NUL_def)
    next
      case (Cons b r2)
      with c1 split show ?thesis by (auto simp: cstr_def NUL_def)
    qed
  qed
qed

lemma loop_body_terminator:
  assumes "c = LF \<or> c = CR" "0 \<le> bufferPos s" "bufferPos s \<le> 510"
    "int (length (inputBuffer s)) = BUFFER_SIZE"
  shows "rs (loop_body c s) = deliver (pending s) (rs s)" "bufferPos (loop_body c s) = 0"
    "length (inputBuffer (loop_body c s)) = length (inputBuffer s)"
proof -
  show "bufferPos (loop_body c s) = 0" using assms(1) by (simp add: loop_body_def Let_def)
  show "length (inputBuffer (loop_body c s)) = length (inputBuffer s)"
    using assms(1) by (simp add: loop_body_def Let_def)
  show "rs (loop_body c s) = deliver (pending s) (rs s)"
  proof (cases "bufferPos s > 0")
    case False
    with assms have "bufferPos s = 0" by simp
    with assms(1) show ?thesis by (simp add: loop_body_def deliver_def pending_def)
  next
    case True
    define p where "p = nat (bufferPos s)"
    have p: "0 < p" "p < length (inputBuffer s)" "p \<le> 510"
      using True assms by (simp_all add: p_def BUFFER_SIZE_def)
    have pend: "pending s = take p (inputBuffer s)" by (simp add: pending_def p_def)
    have ne: "pending s \<noteq> []" using p pend by auto
    have t: "take 510 (pending s) = pending s" using p pend by simp
    show ?thesis
      using assms(1) True ne
      by (simp add: loop_body_def Let_def deliver_def t p_def [symmetric]
          cstr_update_NUL [OF p(2)] dispatch_eq [OF p(1,2)] pend [symmetric])
  qed
qed

lemma loop_body_other:
  assumes "c \<noteq> LF" "c \<noteq> CR" "0 \<le> bufferPos s" "bufferPos s \<le> 510"
    "int (length (inputBuffer s)) = BUFFER_SIZE"
  shows "rs (loop_body c s) = rs s" "pending (loop_body c s) = take 510 (pending s @ [c])"
    "0 \<le> bufferPos (loop_body c s)" "bufferPos (loop_body c s) \<le> 510"
    "length (inputBuffer (loop_body c s)) = length (inputBuffer s)"
proof -
  define p where "p = nat (bufferPos s)"
  have p: "p < length (inputBuffer s)" "p \<le> 510" "bufferPos s = int p"
    using assms by (simp_all add: p_def BUFFER_SIZE_def)
  show "rs (loop_body c s) = rs s" using assms by (simp add: loop_body_def)
  show "0 \<le> bufferPos (loop_body c s)" "bufferPos (loop_body c s) \<le> 510"
    using assms by (simp_all add: loop_body_def)
  show "length (inputBuffer (loop_body c s)) = length (inputBuffer s)"
    using assms by (simp add: loop_body_def)
  show "pending (loop_body c s) = take 510 (pending s @ [c])"
  proof (cases "p < 510")
    case True
    then have "nat (int p + 1) = Suc p" by simp
    with True p assms show ?thesis
      by (simp add: loop_body_def pending_def take_update_snoc)
  next
    case False
    with p have "p = 510" by simp
    with p assms show ?thesis
      by (simp add: loop_body_def pending_def)
  qed
qed


lemma deliver_take: "deliver (take 510 l) r = deliver l r"
  by (simp add: deliver_def)

lemma take_take_append: "take n (take n xs @ ys) = take n (xs @ ys)"
  by (simp add: min_def)

lemma deliver_palette_inv: "palette_inv r \<Longrightarrow> palette_inv (deliver l r)"
  by (simp add: deliver_def Let_def parsePalette_palette_inv parseSingle_palette_inv)

lemma deliver_channels_inv: "channels_inv r \<Longrightarrow> channels_inv (deliver l r)"
  by (simp add: deliver_def Let_def parsePalette_inv parseSingle_inv)

lemma loop_body_ctrl_inv:
  assumes "ctrl_inv s"
  shows "ctrl_inv (loop_body c s)"
proof (cases "c = LF \<or> c = CR")
  case True
  from assms have f: "0 \<le> bufferPos s" "bufferPos s \<le> 510"
    "int (length (inputBuffer s)) = BUFFER_SIZE" by (simp_all add: ctrl_inv_def)
  from loop_body_terminator [OF True f] assms show ?thesis
    by (simp add: ctrl_inv_def loop_body_leds deliver_palette_inv)
next
  case False
  then have c: "c \<noteq> LF" "c \<noteq> CR" by auto
  from assms have f: "0 \<le> bufferPos s" "bufferPos s \<le> 510"
    "int (length (inputBuffer s)) = BUFFER_SIZE" by (simp_all add: ctrl_inv_def)
  from loop_body_other [OF c f] assms show ?thesis
    by (simp add: ctrl_inv_def loop_body_leds)
qed

lemma fold_loop_body_ctrl_inv: "ctrl_inv s \<Longrightarrow> ctrl_inv (fold loop_body bs s)"
  by (induction bs arbitrary: s) (simp_all add: loop_body_ctrl_inv)

lemma fold_loop_body_leds:
  "leds (fold loop_body bs s) = leds s" "shown (fold loop_body bs s) = shown s"
  by (induction bs arbitrary: s) (simp_all add: loop_body_leds)

lemma fold_loop_body_rs:
  assumes "ctrl_inv s" "pending s = take 510 cur"
  shows "rs (fold loop_body bs s) = foldl (\<lambda>r l. deliver l r) (rs s) (complete_lines cur bs)"
  using assms
proof (induction bs arbitrary: s cur)
  case Nil
  then show ?case by simp
next
  case (Cons c bs)
  from Cons.prems have f: "0 \<le> bufferPos s" "bufferPos s \<le> 510"
    "int (length (inputBuffer s)) = BUFFER_SIZE" by (simp_all add: ctrl_inv_def)
  have inv': "ctrl_inv (loop_body c s)" using Cons.prems(1) by (rule loop_body_ctrl_inv)
  show ?case
  proof (cases "c = LF \<or> c = CR")
    case True
    from loop_body_terminator [OF True f]
    have r: "rs (loop_body c s) = deliver cur (rs s)" and p: "pending (loop_body c s) = take 510 []"
      using Cons.prems(2) by (simp_all add: deliver_take pending_def)
    from Cons.IH [OF inv' p] r True show ?thesis by simp
  next
    case False
    then have c: "c \<noteq> LF" "c \<noteq> CR" by auto
    have r: "rs (loop_body c s) = rs s" by (rule loop_body_other(1) [OF c f])
    have "pending (loop_body c s) = take 510 (take 510 cur @ [c])"
      using loop_body_other(2) [OF c f] by (simp only: Cons.prems(2))
    then have p: "pending (loop_body c s) = take 510 (cur @ [c])"
      by (simp only: take_take_append)
    from Cons.IH [OF inv' p] r False show ?thesis by simp
  qed
qed

lemma pending_upd_serial: "pending (s\<lparr>serial := x\<rparr>) = pending s"
  by (simp add: pending_def)

lemma ctrl_inv_upd_serial: "ctrl_inv (s\<lparr>serial := x\<rparr>) = ctrl_inv s"
  by (simp add: ctrl_inv_def)

lemma ctrl_inv_upd_pin13: "ctrl_inv (s\<lparr>pin13 := x\<rparr>) = ctrl_inv s"
  by (simp add: ctrl_inv_def)

lemma drain_facts:
  assumes "ctrl_inv s"
  shows "ctrl_inv (drain s)" "serial (drain s) = []" "leds (drain s) = leds s"
    "shown (drain s) = shown s"
    "rs (drain s) = foldl (\<lambda>r l. deliver l r) (rs s) (complete_lines (pending s) (serial s))"
proof -
  have inv: "ctrl_inv (s\<lparr>serial := []\<rparr>)" using assms by (simp add: ctrl_inv_upd_serial)
  show "ctrl_inv (drain s)" unfolding drain_fold using inv by (rule fold_loop_body_ctrl_inv)
  show "serial (drain s) = []" by (simp add: drain_fold fold_loop_body_serial)
  show "leds (drain s) = leds s" "shown (drain s) = shown s"
    by (simp_all add: drain_fold fold_loop_body_leds)
  have "bufferPos s \<le> 510" using assms by (simp add: ctrl_inv_def)
  then have "nat (bufferPos s) \<le> 510" by linarith
  then have "pending (s\<lparr>serial := []\<rparr>) = take 510 (pending s)"
    by (simp add: pending_def min_absorb2)
  from fold_loop_body_rs [OF inv this] 
  show "rs (drain s) = foldl (\<lambda>r l. deliver l r) (rs s) (complete_lines (pending s) (serial s))"
    by (simp add: drain_fold)
qed

lemma loop_closed:
  assumes "ctrl_inv s"
  shows "loop s =
      Inr (if needsUpdate (rs (drain s))
           then (drain s)\<lparr>pin13 := False, leds := frame_of (rs (drain s)),
                  shown := shown s @ [frame_of (rs (drain s))],
                  rs := (rs (drain s))\<lparr>needsUpdate := False\<rparr>\<rparr>
           else (drain s)\<lparr>pin13 := False\<rparr>)"
proof -
  let ?d = "(drain s)\<lparr>pin13 := False\<rparr>"
  have "ctrl_inv ?d" using drain_facts(1) [OF assms] by (simp add: ctrl_inv_upd_pin13)
  then have "int (length (leds ?d)) = NUM_LEDS" "0 \<le> paletteSize (rs ?d)"
    "paletteSize (rs ?d) \<le> MAX_PALETTE"
    by (simp_all add: ctrl_inv_def palette_inv_def)
  from render_closed [OF this] show ?thesis
    by (simp add: loop_def drain_facts(4) [OF assms])
qed

lemma loop_ctrl_inv:
  assumes "ctrl_inv s" "loop s = Inr s'"
  shows "ctrl_inv s'" "serial s' = []"
proof -
  have d: "ctrl_inv (drain s)" "serial (drain s) = []" using drain_facts [OF assms(1)] by simp_all
  from assms(2) loop_closed [OF assms(1)] d show "ctrl_inv s'"
    by (auto simp: ctrl_inv_def palette_inv_def length_frame_of split: if_splits)
  from assms(2) loop_closed [OF assms(1)] d show "serial s' = []"
    by (auto split: if_splits)
qed

lemma setup_ctrl_inv: "ctrl_inv setup_state"
  by (simp add: ctrl_inv_def palette_inv_def setup_state_def NUM_LEDS_def BUFFER_SIZE_def MAX_PALETTE_def)

lemma reachable_ctrl_inv: "reachable s \<Longrightarrow> ctrl_inv s \<and> serial s = []"
proof (induction rule: reachable.induct)
  case reachable_setup
  show ?case using setup_ctrl_inv by (simp add: setup_state_def)
next
  case (reachable_loop s bytes s')
  then have "ctrl_inv (s\<lparr>serial := serial s @ bytes\<rparr>)" by (simp add: ctrl_inv_upd_serial)
  from loop_ctrl_inv [OF this reachable_loop.hyps(2)] show ?case by simp
qed


section \<open>Claims about the parsers\<close>

text \<open>
  Claim C7. When the count field of a palette command parses to a value \<open>n\<close> below 1 or
  above \<^verbatim>\<open>MAX_PALETTE\<close>, where \<open>n\<close> is the \<^verbatim>\<open>int\<close> that \<^verbatim>\<open>atoi\<close> returns, the palette parser
  returns with every global as it was: mode, palette size, every palette entry, the flat
  colour and the needs-render flag.
\<close>

theorem parsePalette_rejects_bad_count:
  "atoi (drop 2 data) < 1 \<or> atoi (drop 2 data) > MAX_PALETTE \<Longrightarrow> parsePalette data s = s"
  by (simp add: parsePalette_def Let_def)

theorem parsePalette_rejects_bad_count_witness:
  "atoi (drop 2 ''P:50:FF0000'') > MAX_PALETTE
   \<and> parsePalette ''P:50:FF0000'' (rs setup_state) = rs setup_state
   \<and> atoi (drop 2 ''P:0:FF0000'') < 1
   \<and> parsePalette ''P:0:FF0000'' (rs setup_state) = rs setup_state"
proof -
  have h1: "atoi (drop 2 ''P:50:FF0000'') > MAX_PALETTE" by code_simp
  have h2: "atoi (drop 2 ''P:0:FF0000'') < 1" by code_simp
  from h1 h2 parsePalette_rejects_bad_count [of "''P:50:FF0000''" "rs setup_state"]
    parsePalette_rejects_bad_count [of "''P:0:FF0000''" "rs setup_state"]
  show ?thesis by blast
qed

section \<open>Stored channels are bytes\<close>

lemma setup_channels_inv: "channels_inv (rs setup_state)"
  by (simp add: channels_inv_def channel_ok_def setup_state_def list_all_iff)

lemma loop_body_channels_inv:
  assumes "ctrl_inv s" "channels_inv (rs s)"
  shows "channels_inv (rs (loop_body c s))"
proof (cases "c = LF \<or> c = CR")
  case True
  from assms have f: "0 \<le> bufferPos s" "bufferPos s \<le> 510"
    "int (length (inputBuffer s)) = BUFFER_SIZE" by (simp_all add: ctrl_inv_def)
  from loop_body_terminator(1) [OF True f] assms(2) show ?thesis
    by (simp add: deliver_channels_inv)
next
  case False
  then show ?thesis using assms(2) by (simp add: loop_body_def)
qed

lemma foldl_deliver_channels_inv:
  "channels_inv r \<Longrightarrow> channels_inv (foldl (\<lambda>r l. deliver l r) r ls)"
  by (induction ls arbitrary: r) (simp_all add: deliver_channels_inv)

lemma drain_channels_inv:
  assumes "ctrl_inv s" "channels_inv (rs s)"
  shows "channels_inv (rs (drain s))"
  using assms(2) by (simp add: drain_facts(5) [OF assms(1)] foldl_deliver_channels_inv)

lemma channels_inv_needsUpdate: "channels_inv (r\<lparr>needsUpdate := u\<rparr>) = channels_inv r"
  by (simp add: channels_inv_def)

lemma loop_channels_inv:
  assumes "ctrl_inv s" "channels_inv (rs s)" "loop s = Inr s'"
  shows "channels_inv (rs s')"
  using assms(3) drain_channels_inv [OF assms(1,2)]
  by (auto simp: loop_closed [OF assms(1)] channels_inv_needsUpdate split: if_splits)

lemma reachable_channels_inv: "reachable s \<Longrightarrow> channels_inv (rs s)"
proof (induction rule: reachable.induct)
  case reachable_setup
  show ?case by (rule setup_channels_inv)
next
  case (reachable_loop s bytes s')
  have "ctrl_inv (s\<lparr>serial := serial s @ bytes\<rparr>)"
    using reachable_ctrl_inv [OF reachable_loop.hyps(1)] by (simp add: ctrl_inv_upd_serial)
  from loop_channels_inv [OF this _ reachable_loop.hyps(2)] reachable_loop.IH
  show ?case by simp
qed

text \<open>
  Claim C10. Every stored channel value, the flat colour and every palette entry, lies in
  \<open>[0, 255]\<close>: this holds after \<^verbatim>\<open>setup()\<close>, both parsers preserve it, and so it holds in
  every reachable state; hex decoding and the clamp yield bytes, and calibrating a byte
  with any of the three factors, none of which exceeds \<open>1.0 = 2 ^ 24 / 2 ^ 24\<close>, yields a
  byte.
\<close>

theorem stored_channels_are_bytes:
  "channels_inv (rs setup_state)
   \<and> (channels_inv r \<longrightarrow> channels_inv (parsePalette data r) \<and> channels_inv (parseSingle data r))
   \<and> (reachable s \<longrightarrow> channels_inv (rs s))
   \<and> channel_ok (hexToByte hi lo)
   \<and> channel_ok (constrain v 0 255)
   \<and> (channel_ok x \<longrightarrow> channel_ok (calibrate x RED_FACTOR) \<and> channel_ok (calibrate x GREEN_FACTOR)
        \<and> channel_ok (calibrate x BLUE_FACTOR))
   \<and> RED_FACTOR \<le> 2 ^ 24 \<and> GREEN_FACTOR \<le> 2 ^ 24 \<and> BLUE_FACTOR \<le> 2 ^ 24"
proof -
  have "RED_FACTOR \<le> 2 ^ 24" "GREEN_FACTOR \<le> 2 ^ 24" "BLUE_FACTOR \<le> 2 ^ 24"
    by (simp_all add: RED_FACTOR_def GREEN_FACTOR_def BLUE_FACTOR_def)
  with setup_channels_inv parsePalette_inv parseSingle_inv reachable_channels_inv
    hexToByte_ok constrain_ok calibrate_ok
  show ?thesis by blast
qed

theorem stored_channels_are_bytes_witness:
  "channels_inv (rs setup_state)
   \<and> channels_inv (parsePalette ''P:2:FFfFff:80zz01'' (rs setup_state))
   \<and> take 2 (paletteG (parsePalette ''P:2:FFfFff:80zz01'' (rs setup_state))) = [191, 0]
   \<and> channels_inv (parseSingle ''300,-5,77'' (rs setup_state))
   \<and> currentR (parseSingle ''300,-5,77'' (rs setup_state)) = 255
   \<and> currentG (parseSingle ''300,-5,77'' (rs setup_state)) = 0
   \<and> currentB (parseSingle ''300,-5,77'' (rs setup_state)) = 69
   \<and> reachable setup_state \<and> channel_ok 255 \<and> channel_ok (calibrate 255 BLUE_FACTOR)"
proof -
  have a: "channels_inv (rs setup_state)" by (rule setup_channels_inv)
  have b: "take 2 (paletteG (parsePalette ''P:2:FFfFff:80zz01'' (rs setup_state))) = [191, 0]"
    by code_simp
  have c: "currentR (parseSingle ''300,-5,77'' (rs setup_state)) = 255"
    "currentG (parseSingle ''300,-5,77'' (rs setup_state)) = 0"
    "currentB (parseSingle ''300,-5,77'' (rs setup_state)) = 69"
    by code_simp+
  have d: "reachable setup_state" by (rule reachable_setup)
  have e: "channel_ok 255" by (simp add: channel_ok_def)
  from a b c d e
    stored_channels_are_bytes [of "rs setup_state" "''P:2:FFfFff:80zz01''" setup_state hi lo v 255]
    stored_channels_are_bytes [of "rs setup_state" "''300,-5,77''" setup_state hi lo v 255]
  show ?thesis by blast
qed

section \<open>The palette partition\<close>

lemma div_eq_block:
  assumes "0 < (b::int)"
  shows "(i div b = k) = (k * b \<le> i \<and> i < (k + 1) * b)"
proof
  assume "i div b = k"
  moreover have "i = b * (i div b) + i mod b" by simp
  moreover have "0 \<le> i mod b" "i mod b < b" using assms by simp_all
  ultimately show "k * b \<le> i \<and> i < (k + 1) * b"
    by (auto simp: algebra_simps)
next
  assume a: "k * b \<le> i \<and> i < (k + 1) * b"
  have "i = b * k + (i - k * b)" by (simp add: algebra_simps)
  moreover have "0 \<le> i - k * b" "i - k * b < b" using a by (simp_all add: algebra_simps)
  ultimately show "i div b = k" by (rule int_div_pos_eq)
qed

lemma div_ge_block:
  assumes "0 < (b::int)"
  shows "(k \<le> i div b) = (k * b \<le> i)"
proof
  have q: "(i div b) * b \<le> i" "i < (i div b + 1) * b"
    using div_eq_block [OF assms, of i "i div b"] by simp_all
  {
    assume "k \<le> i div b"
    then have "k * b \<le> (i div b) * b" using assms by (simp add: mult_right_mono)
    with q show "k * b \<le> i" by linarith
  }
  {
    assume kb: "k * b \<le> i"
    show "k \<le> i div b"
    proof (rule ccontr)
      assume "\<not> k \<le> i div b"
      then have "i div b + 1 \<le> k" by simp
      then have "(i div b + 1) * b \<le> k * b" using assms by (simp add: mult_right_mono)
      with q kb show False by linarith
    qed
  }
qed

lemma palette_index_block:
  assumes "1 \<le> n" "n \<le> MAX_PALETTE" "0 \<le> k" "k < n"
  shows "(palette_index n i = k) =
         (k * (NUM_LEDS div n) \<le> i \<and> (i < (k + 1) * (NUM_LEDS div n) \<or> k = n - 1))"
proof -
  have b: "0 < NUM_LEDS div n"
    using assms by (simp add: NUM_LEDS_def MAX_PALETTE_def pos_imp_zdiv_pos_iff)
  show ?thesis
  proof (cases "k = n - 1")
    case True
    have "(palette_index n i = k) = (n - 1 \<le> i div (NUM_LEDS div n))"
      using True by (auto simp: palette_index_def min_def)
    then show ?thesis using True by (simp add: div_ge_block [OF b])
  next
    case False
    with assms have "k < n - 1" by simp
    then have "(palette_index n i = k) = (i div (NUM_LEDS div n) = k)"
      by (auto simp: palette_index_def min_def)
    then show ?thesis using False by (simp add: div_eq_block [OF b])
  qed
qed

lemma palette_index_range:
  assumes "1 \<le> n" "n \<le> MAX_PALETTE" "0 \<le> i"
  shows "0 \<le> palette_index n i" "palette_index n i < n"
proof -
  have b: "0 < NUM_LEDS div n"
    using assms by (simp add: NUM_LEDS_def MAX_PALETTE_def pos_imp_zdiv_pos_iff)
  then have "0 \<le> i div (NUM_LEDS div n)" using assms by (simp add: pos_imp_zdiv_nonneg_iff)
  then show "0 \<le> palette_index n i" using assms by (simp add: palette_index_def)
  show "palette_index n i < n" by (simp add: palette_index_def)
qed

lemma last_block_starts_inside:
  assumes "1 \<le> n" "n \<le> MAX_PALETTE"
  shows "(n - 1) * (NUM_LEDS div n) < NUM_LEDS" "1 \<le> NUM_LEDS div n"
proof -
  have b: "0 < NUM_LEDS div n"
    using assms by (simp add: NUM_LEDS_def MAX_PALETTE_def pos_imp_zdiv_pos_iff)
  then show "1 \<le> NUM_LEDS div n" by simp
  have "NUM_LEDS = n * (NUM_LEDS div n) + NUM_LEDS mod n" by simp
  moreover have "0 \<le> NUM_LEDS mod n" using assms by simp
  ultimately have "n * (NUM_LEDS div n) \<le> NUM_LEDS" by linarith
  moreover have "(n - 1) * (NUM_LEDS div n) = n * (NUM_LEDS div n) - NUM_LEDS div n"
    by (simp add: algebra_simps)
  ultimately show "(n - 1) * (NUM_LEDS div n) < NUM_LEDS" using b by linarith
qed

lemma nth_frame_of_palette:
  assumes "paletteMode r" "0 < paletteSize r" "0 \<le> i" "i < NUM_LEDS"
  shows "frame_of r ! nat i = palette_pixel r i"
proof -
  have "[0..NUM_LEDS - 1] ! nat i = i"
    using assms nth_upto [of 0 "nat i" "NUM_LEDS - 1"] by simp
  moreover have "nat i < length [0..NUM_LEDS - 1]" using assms by simp
  ultimately show ?thesis using assms by (simp add: frame_of_def)
qed

text \<open>
  Claim C3. With a committed palette of size \<open>n\<close> in \<open>[1, MAX_PALETTE]\<close> the render step
  succeeds and gives every pixel \<open>i\<close> in \<open>[0, NUM_LEDS)\<close> the palette entry with index
  \<open>min (i / blockSize) (n - 1)\<close>, where \<open>blockSize = NUM_LEDS / n\<close> in integer division.
  The index is a valid entry; entry \<open>k\<close> colours exactly the pixels from \<open>k * blockSize\<close>
  up to \<open>(k + 1) * blockSize\<close>, and the last entry colours every pixel from
  \<open>(n - 1) * blockSize\<close> on, so the blocks are contiguous and the last one takes the
  remainder; no block is empty.
\<close>

theorem palette_blocks:
  assumes "ctrl_inv s" "needsUpdate (rs s)" "paletteMode (rs s)" "1 \<le> paletteSize (rs s)"
  shows "\<exists>s'. render s = Inr s'
     \<and> int (length (leds s')) = NUM_LEDS
     \<and> (\<forall>i. 0 \<le> i \<and> i < NUM_LEDS \<longrightarrow>
          (let blockSize = NUM_LEDS div paletteSize (rs s);
               idx = min (i div blockSize) (paletteSize (rs s) - 1)
           in 0 \<le> idx \<and> idx < paletteSize (rs s)
              \<and> leds s' ! nat i = CRGB_of_ints (paletteR (rs s) ! nat idx)
                    (paletteG (rs s) ! nat idx) (paletteB (rs s) ! nat idx)
              \<and> (\<forall>k. 0 \<le> k \<and> k < paletteSize (rs s) \<longrightarrow>
                    (idx = k) = (k * blockSize \<le> i
                                 \<and> (i < (k + 1) * blockSize \<or> k = paletteSize (rs s) - 1)))))
     \<and> 1 \<le> NUM_LEDS div paletteSize (rs s)
     \<and> (paletteSize (rs s) - 1) * (NUM_LEDS div paletteSize (rs s)) < NUM_LEDS"
proof -
  let ?n = "paletteSize (rs s)"
  from assms(1) have inv: "int (length (leds s)) = NUM_LEDS" "0 \<le> ?n" "?n \<le> MAX_PALETTE"
    by (simp_all add: ctrl_inv_def palette_inv_def)
  let ?s' = "s\<lparr>leds := frame_of (rs s), shown := shown s @ [frame_of (rs s)],
                  rs := (rs s)\<lparr>needsUpdate := False\<rparr>\<rparr>"
  have r: "render s = Inr ?s'" using render_closed [OF inv] assms(2) by simp
  have px: "leds ?s' ! nat i = palette_pixel (rs s) i" if "0 \<le> i" "i < NUM_LEDS" for i
    using nth_frame_of_palette [of "rs s" i] assms that by simp
  show ?thesis
    apply (rule exI [of _ ?s'])
    using r px palette_index_block [OF assms(4) inv(3)] palette_index_range [OF assms(4) inv(3)]
      last_block_starts_inside [OF assms(4) inv(3)] assms(4)
    by (simp add: length_frame_of Let_def palette_pixel_def palette_index_def)
qed

theorem palette_blocks_witness:
  "ctrl_inv three_colours \<and> needsUpdate (rs three_colours) \<and> paletteMode (rs three_colours)
   \<and> paletteSize (rs three_colours) = 3
   \<and> (\<exists>s'. render three_colours = Inr s'
         \<and> map (\<lambda>i. leds s' ! i) [0, 84, 85, 169, 170, 255]
            = [CRGB 255 0 0, CRGB 255 0 0, CRGB 0 191 0, CRGB 0 191 0, CRGB 0 0 229, CRGB 0 0 229])"
proof -
  have h1: "ctrl_inv three_colours"
    using setup_ctrl_inv parsePalette_palette_inv [of "rs setup_state"]
    by (simp add: three_colours_def ctrl_inv_def)
  have h2: "needsUpdate (rs three_colours)" and h3: "paletteMode (rs three_colours)"
    and h4: "paletteSize (rs three_colours) = 3"
    by code_simp+
  have h5: "1 \<le> paletteSize (rs three_colours)" using h4 by simp
  have p: "take 3 (paletteR (rs three_colours)) = [255, 0, 0]"
    "take 3 (paletteG (rs three_colours)) = [0, 191, 0]"
    "take 3 (paletteB (rs three_colours)) = [0, 0, 229]"
    by code_simp+
  from palette_blocks [OF h1 h2 h3 h5] obtain s' where
    r: "render three_colours = Inr s'" and
    px: "\<And>i. 0 \<le> i \<and> i < NUM_LEDS \<Longrightarrow>
          leds s' ! nat i = CRGB_of_ints
            (paletteR (rs three_colours) ! nat (min (i div (NUM_LEDS div 3)) 2))
            (paletteG (rs three_colours) ! nat (min (i div (NUM_LEDS div 3)) 2))
            (paletteB (rs three_colours) ! nat (min (i div (NUM_LEDS div 3)) 2))"
    unfolding h4 Let_def by auto
  have nth: "take 3 xs = [a, b, c] \<Longrightarrow> xs ! 0 = a \<and> xs ! 1 = b \<and> xs ! 2 = c" for xs :: "int list" and a b c
    by (metis nth_take numeral_2_eq_2 numeral_3_eq_3 lessI less_SucI nth_Cons_0 nth_Cons_Suc One_nat_def zero_less_Suc)
  have "map (\<lambda>i. leds s' ! i) [0, 84, 85, 169, 170, 255]
            = [CRGB 255 0 0, CRGB 255 0 0, CRGB 0 191 0, CRGB 0 191 0, CRGB 0 0 229, CRGB 0 0 229]"
    using px [of 0] px [of 84] px [of 85] px [of 169] px [of 170] px [of 255] nth [OF p(1)] nth [OF p(2)] nth [OF p(3)]
    by (simp add: NUM_LEDS_def CRGB_of_ints_def)
  with h1 h2 h3 h4 r show ?thesis by auto
qed


section \<open>Safety of the render step\<close>

lemma needsUpdate_clear_idem: "\<not> needsUpdate r \<Longrightarrow> r\<lparr>needsUpdate := False\<rparr> = r"
  by simp

lemma loop_rs:
  assumes "ctrl_inv s" "loop s = Inr s'"
  shows "rs s' = (foldl (\<lambda>r l. deliver l r) (rs s) (complete_lines (pending s) (serial s)))
                   \<lparr>needsUpdate := False\<rparr>"
proof -
  have "rs s' = (rs (drain s))\<lparr>needsUpdate := False\<rparr>"
    using assms(2) unfolding loop_closed [OF assms(1)]
    by (auto split: if_splits)
  then show ?thesis by (simp only: drain_facts(5) [OF assms(1)])
qed

lemma pending_setup: "pending (setup_state\<lparr>serial := bs\<rparr>) = []"
  by (simp add: pending_def setup_state_def)

lemma reachable_loop_total:
  assumes "reachable s"
  shows "\<exists>s'. loop (s\<lparr>serial := serial s @ bytes\<rparr>) = Inr s'"
proof -
  have "ctrl_inv (s\<lparr>serial := serial s @ bytes\<rparr>)"
    using reachable_ctrl_inv [OF assms] by (simp add: ctrl_inv_upd_serial)
  from loop_closed [OF this] show ?thesis by blast
qed

text \<open>
  The bound on the palette size matters: a palette size above \<^verbatim>\<open>NUM_LEDS\<close> would make
  \<^verbatim>\<open>ledsPerBlock\<close> zero and the second division fault.
\<close>

lemma render_oversized_faults: "render oversized = Inl DivByZero"
  by code_simp

text \<open>
  Claim C9. From every reachable state, and whatever bytes arrive, \<^verbatim>\<open>loop()\<close> runs without
  a fault. The palette size stays in \<open>[0, MAX_PALETTE]\<close> and \<^verbatim>\<open>MAX_PALETTE\<close> is at most
  \<^verbatim>\<open>NUM_LEDS\<close>, so under the guard \<open>paletteSize > 0\<close> the division
  \<^verbatim>\<open>NUM_LEDS / paletteSize\<close> is defined and at least 1, and so is every division
  \<^verbatim>\<open>i / ledsPerBlock\<close>.
\<close>

theorem render_divisions_safe:
  assumes "reachable s"
  shows "(\<exists>s'. loop (s\<lparr>serial := serial s @ bytes\<rparr>) = Inr s')
     \<and> 0 \<le> paletteSize (rs s) \<and> paletteSize (rs s) \<le> MAX_PALETTE \<and> MAX_PALETTE \<le> NUM_LEDS
     \<and> (paletteSize (rs s) > 0 \<longrightarrow>
          (\<exists>ledsPerBlock. c_div NUM_LEDS (paletteSize (rs s)) = Inr ledsPerBlock
             \<and> 1 \<le> ledsPerBlock
             \<and> (\<forall>i. 0 \<le> i \<longrightarrow> c_div i ledsPerBlock = Inr (i div ledsPerBlock))))"
proof -
  have inv: "0 \<le> paletteSize (rs s)" "paletteSize (rs s) \<le> MAX_PALETTE"
    using reachable_ctrl_inv [OF assms] by (simp_all add: ctrl_inv_def palette_inv_def)
  have "\<exists>ledsPerBlock. c_div NUM_LEDS (paletteSize (rs s)) = Inr ledsPerBlock
             \<and> 1 \<le> ledsPerBlock
             \<and> (\<forall>i. 0 \<le> i \<longrightarrow> c_div i ledsPerBlock = Inr (i div ledsPerBlock))"
    if pos: "paletteSize (rs s) > 0"
  proof -
    from pos have one: "1 \<le> paletteSize (rs s)" by simp
    have b: "1 \<le> NUM_LEDS div paletteSize (rs s)"
      by (rule last_block_starts_inside(2) [OF one inv(2)])
    have "c_div NUM_LEDS (paletteSize (rs s)) = Inr (NUM_LEDS div paletteSize (rs s))"
      using pos by (simp add: c_div_nonneg NUM_LEDS_def)
    with b show ?thesis by (simp add: c_div_nonneg)
  qed
  with inv reachable_loop_total [OF assms, of bytes] show ?thesis
    by (simp add: MAX_PALETTE_def NUM_LEDS_def)
qed

theorem render_divisions_safe_witness:
  "reachable setup_state
   \<and> (\<exists>s'. loop (setup_state\<lparr>serial := serial setup_state @ ''P:2:00FF00:0000FF'' @ [LF]\<rparr>) = Inr s'
         \<and> reachable s' \<and> paletteSize (rs s') = 2
         \<and> c_div NUM_LEDS (paletteSize (rs s')) = Inr 128)
   \<and> c_div NUM_LEDS MAX_PALETTE = Inr 5"
proof -
  have h: "reachable setup_state" by (rule reachable_setup)
  from render_divisions_safe [OF h, of "''P:2:00FF00:0000FF'' @ [LF]"]
  obtain s' where l: "loop (setup_state\<lparr>serial := serial setup_state @ ''P:2:00FF00:0000FF'' @ [LF]\<rparr>) = Inr s'"
    by blast
  have r: "reachable s'" using h l by (rule reachable_loop)
  have i: "ctrl_inv (setup_state\<lparr>serial := serial setup_state @ ''P:2:00FF00:0000FF'' @ [LF]\<rparr>)"
    using setup_ctrl_inv by (simp add: ctrl_inv_upd_serial)
  have "paletteSize (foldl (\<lambda>r l. deliver l r) (rs setup_state)
            (complete_lines [] (serial setup_state @ ''P:2:00FF00:0000FF'' @ [LF]))) = 2"
    by code_simp
  then have p: "paletteSize (rs s') = 2"
    by (simp add: loop_rs [OF i l] pending_setup)
  have c: "c_div NUM_LEDS 2 = Inr 128" "c_div NUM_LEDS MAX_PALETTE = Inr 5" by code_simp+
  from h l r p c show ?thesis by auto
qed


section \<open>The two phases of the main loop\<close>

text \<open>
  Claim C2. One call of \<^verbatim>\<open>loop()\<close> first drains the receive queue completely; the drain
  transmits nothing and leaves the frame buffer alone, and it applies every line that the
  queued bytes complete, in order, to the render state. Only then, and only when the
  needs-render flag is set, the frame is composed from the drained render state and
  transmitted, exactly once; the flag is clear afterwards.
\<close>

theorem loop_drains_then_renders_once:
  assumes "ctrl_inv s"
  shows "\<exists>s'. loop s = Inr s'
     \<and> serial (drain s) = [] \<and> shown (drain s) = shown s \<and> leds (drain s) = leds s
     \<and> rs (drain s) = foldl (\<lambda>r l. deliver l r) (rs s) (complete_lines (pending s) (serial s))
     \<and> (if needsUpdate (rs (drain s))
         then leds s' = frame_of (rs (drain s)) \<and> shown s' = shown s @ [leds s']
         else leds s' = leds s \<and> shown s' = shown s)
     \<and> rs s' = (rs (drain s))\<lparr>needsUpdate := False\<rparr>
     \<and> \<not> needsUpdate (rs s') \<and> serial s' = []"
  using drain_facts [OF assms]
  by (simp add: loop_closed [OF assms])

theorem loop_drains_then_renders_once_witness:
  "ctrl_inv (setup_state\<lparr>serial := example_burst\<rparr>)
   \<and> complete_lines [] example_burst
        = [''255,0,0'', ''P:2:00FF00:0000FF'', [], ''garbage'', ''10,20,30'']
   \<and> (\<exists>s'. loop (setup_state\<lparr>serial := example_burst\<rparr>) = Inr s'
         \<and> serial s' = []
         \<and> \<not> paletteMode (rs s') \<and> \<not> needsUpdate (rs s')
         \<and> (currentR (rs s'), currentG (rs s'), currentB (rs s')) = (10, 15, 27)
         \<and> leds s' = replicate 256 (CRGB 10 15 27)
         \<and> shown s' = [replicate 256 black, replicate 256 (CRGB 10 15 27)])"
proof -
  let ?s = "setup_state\<lparr>serial := example_burst\<rparr>"
  let ?r = "foldl (\<lambda>r l. deliver l r) (rs setup_state) (complete_lines [] example_burst)"
  have h: "ctrl_inv ?s" using setup_ctrl_inv by (simp add: ctrl_inv_upd_serial)
  have cl: "complete_lines [] example_burst
        = [''255,0,0'', ''P:2:00FF00:0000FF'', [], ''garbage'', ''10,20,30'']"
    by code_simp
  have ev: "needsUpdate ?r" "\<not> paletteMode ?r" "currentR ?r = 10" "currentG ?r = 15" "currentB ?r = 27"
    by code_simp+
  have fr: "frame_of ?r = replicate 256 (CRGB 10 15 27)"
    using ev by (simp add: frame_of_def flat_pixel_def CRGB_of_ints_def NUM_LEDS_def)
  have sh: "shown ?s = [replicate 256 black]" "rs ?s = rs setup_state" "serial ?s = example_burst"
    by (simp_all add: setup_state_def NUM_LEDS_def)
  from loop_drains_then_renders_once [OF h] obtain s' where
    "loop ?s = Inr s'" "serial s' = []"
    "rs (drain ?s) = ?r"
    "if needsUpdate (rs (drain ?s))
         then leds s' = frame_of (rs (drain ?s)) \<and> shown s' = shown ?s @ [leds s']
         else leds s' = leds ?s \<and> shown s' = shown ?s"
    "rs s' = (rs (drain ?s))\<lparr>needsUpdate := False\<rparr>"
    unfolding pending_setup sh(2,3) by blast
  with ev fr sh(1) have "loop ?s = Inr s' \<and> serial s' = []
         \<and> \<not> paletteMode (rs s') \<and> \<not> needsUpdate (rs s')
         \<and> (currentR (rs s'), currentG (rs s'), currentB (rs s')) = (10, 15, 27)
         \<and> leds s' = replicate 256 (CRGB 10 15 27)
         \<and> shown s' = [replicate 256 black, replicate 256 (CRGB 10 15 27)]"
    by simp
  with h cl show ?thesis by blast
qed


section \<open>The line buffer bound\<close>

lemma fold_loop_body_bufferPos:
  assumes "0 \<le> bufferPos s" "bufferPos s \<le> 510" "LF \<notin> set bs" "CR \<notin> set bs"
  shows "bufferPos (fold loop_body bs s) = min 510 (bufferPos s + int (length bs))"
  using assms
proof (induction bs arbitrary: s)
  case Nil
  then show ?case by simp
next
  case (Cons c bs)
  from Cons.prems have c: "c \<noteq> LF" "c \<noteq> CR" by auto
  have b: "bufferPos (loop_body c s) = min 510 (bufferPos s + 1)"
    using c Cons.prems by (simp add: loop_body_def)
  with Cons.prems have "0 \<le> bufferPos (loop_body c s)" "bufferPos (loop_body c s) \<le> 510"
    by simp_all
  from Cons.IH [OF this] Cons.prems b show ?case by (simp add: min_def)
qed

lemma x_not_terminator: "CHR ''x'' \<noteq> LF" "CHR ''x'' \<noteq> CR"
  by (simp_all add: LF_def CR_def)

text \<open>
  The claim as stated, with the capacity 512 of \<^verbatim>\<open>inputBuffer\<close>, fails: after 510 bytes
  the length is 510, which is below capacity minus one, and the next byte is dropped.
\<close>

theorem framer_stops_at_510:
  "bufferPos (drain (setup_state\<lparr>serial := replicate 510 (CHR ''x'')\<rparr>)) = 510
   \<and> 510 < BUFFER_SIZE - 1
   \<and> loop_body (CHR ''x'') (drain (setup_state\<lparr>serial := replicate 510 (CHR ''x'')\<rparr>))
       = drain (setup_state\<lparr>serial := replicate 510 (CHR ''x'')\<rparr>)"
proof -
  let ?d = "drain (setup_state\<lparr>serial := replicate 510 (CHR ''x'')\<rparr>)"
  have "bufferPos ?d = min 510 (0 + int (length (replicate 510 (CHR ''x''))))"
    unfolding drain_fold
    by (subst fold_loop_body_bufferPos) (simp_all add: setup_state_def x_not_terminator [symmetric])
  then have b: "bufferPos ?d = 510" by simp
  then have "loop_body (CHR ''x'') ?d = ?d"
    by (simp add: loop_body_def x_not_terminator)
  with b show ?thesis by (simp add: BUFFER_SIZE_def)
qed

text \<open>
  Claim C5, amended. A byte that is no terminator is appended to the line buffer if and
  only if the current length is below 510, that is capacity minus two; otherwise it is
  dropped and the state is unchanged, until a terminator resets the length to zero. So
  the length never exceeds 510, which is below capacity minus one.
\<close>

theorem framer_append_guard:
  assumes "c \<noteq> LF" "c \<noteq> CR"
  shows "(bufferPos s < 510 \<longrightarrow>
            loop_body c s = s\<lparr>inputBuffer := (inputBuffer s)[nat (bufferPos s) := c],
                              bufferPos := bufferPos s + 1\<rparr>)
       \<and> (\<not> bufferPos s < 510 \<longrightarrow> loop_body c s = s)
       \<and> (ctrl_inv s \<longrightarrow>
            pending (loop_body c s) = (if bufferPos s < 510 then pending s @ [c] else pending s)
            \<and> bufferPos (loop_body c s) \<le> 510
            \<and> bufferPos (drain s) \<le> 510)
       \<and> bufferPos (loop_body LF s) = 0 \<and> bufferPos (loop_body CR s) = 0
       \<and> (reachable s \<longrightarrow> 0 \<le> bufferPos s \<and> bufferPos s \<le> 510 \<and> bufferPos s < BUFFER_SIZE - 1)"
proof -
  have a: "bufferPos s < 510 \<longrightarrow>
            loop_body c s = s\<lparr>inputBuffer := (inputBuffer s)[nat (bufferPos s) := c],
                              bufferPos := bufferPos s + 1\<rparr>"
    "\<not> bufferPos s < 510 \<longrightarrow> loop_body c s = s"
    "bufferPos (loop_body LF s) = 0" "bufferPos (loop_body CR s) = 0"
    using assms by (simp_all add: loop_body_def Let_def)
  have b: "pending (loop_body c s) = (if bufferPos s < 510 then pending s @ [c] else pending s)
            \<and> bufferPos (loop_body c s) \<le> 510 \<and> bufferPos (drain s) \<le> 510" if inv: "ctrl_inv s"
  proof -
    from inv have f: "0 \<le> bufferPos s" "bufferPos s \<le> 510"
      "int (length (inputBuffer s)) = BUFFER_SIZE" by (simp_all add: ctrl_inv_def)
    have l: "length (pending s) = nat (bufferPos s)"
      using f by (simp add: pending_def BUFFER_SIZE_def)
    have "pending (loop_body c s) = take 510 (pending s @ [c])"
      by (rule loop_body_other(2) [OF assms f])
    then have "pending (loop_body c s) = (if bufferPos s < 510 then pending s @ [c] else pending s)"
      using l f by auto
    moreover have "bufferPos (loop_body c s) \<le> 510" by (rule loop_body_other(4) [OF assms f])
    moreover have "bufferPos (drain s) \<le> 510"
      using drain_facts(1) [OF inv] by (simp add: ctrl_inv_def)
    ultimately show ?thesis by simp
  qed
  have c: "0 \<le> bufferPos s \<and> bufferPos s \<le> 510 \<and> bufferPos s < BUFFER_SIZE - 1" if "reachable s"
    using reachable_ctrl_inv [OF that] by (simp add: ctrl_inv_def BUFFER_SIZE_def)
  from a b c show ?thesis by blast
qed

theorem framer_append_guard_witness:
  "CHR ''x'' \<noteq> LF \<and> CHR ''x'' \<noteq> CR \<and> bufferPos setup_state < 510 \<and> ctrl_inv setup_state
   \<and> reachable setup_state
   \<and> bufferPos (loop_body (CHR ''x'') setup_state) = 1
   \<and> pending (loop_body (CHR ''x'') setup_state) = ''x''
   \<and> bufferPos (loop_body LF (loop_body (CHR ''x'') setup_state)) = 0"
proof -
  let ?x = "loop_body (CHR ''x'') setup_state"
  have h: "bufferPos setup_state < 510" "pending setup_state = []" "bufferPos setup_state = 0"
    by (simp_all add: setup_state_def pending_def)
  note t = framer_append_guard [OF x_not_terminator, of setup_state]
  have "pending ?x = (if bufferPos setup_state < 510 then pending setup_state @ ''x''
      else pending setup_state)"
    using t setup_ctrl_inv by blast
  then have p: "pending ?x = ''x''" using h(1) by (simp only: h(2) if_True append_Nil)
  have "?x = setup_state\<lparr>inputBuffer := (inputBuffer setup_state)[nat (bufferPos setup_state) := CHR ''x''],
      bufferPos := bufferPos setup_state + 1\<rparr>"
    using t h(1) by blast
  then have b: "bufferPos ?x = 1" by (simp add: h(3))
  have z: "bufferPos (loop_body LF ?x) = 0"
    using framer_append_guard [OF x_not_terminator, of ?x] by blast
  from h(1) p b z setup_ctrl_inv reachable_setup x_not_terminator show ?thesis by blast
qed


section \<open>A rejected palette command\<close>

lemma loop_from_setup:
  fixes bytes :: string
  defines "r \<equiv> foldl (\<lambda>r l. deliver l r) (rs setup_state) (complete_lines [] bytes)"
  assumes "needsUpdate r"
  shows "\<exists>s'. loop (setup_state\<lparr>serial := bytes\<rparr>) = Inr s' \<and> rs s' = r\<lparr>needsUpdate := False\<rparr>
           \<and> leds s' = frame_of r \<and> last (shown s') = frame_of r"
proof -
  let ?s = "setup_state\<lparr>serial := bytes\<rparr>"
  have h: "ctrl_inv ?s" using setup_ctrl_inv by (simp add: ctrl_inv_upd_serial)
  have "rs (drain ?s) = r"
    unfolding r_def drain_facts(5) [OF h] pending_setup by (simp add: setup_state_def)
  with assms(2) show ?thesis
    by (simp add: loop_closed [OF h])
qed

text \<open>
  Claim C1 does not hold of the code. The loop of \<^verbatim>\<open>parsePalette\<close> writes into the live
  palette arrays before it knows that every entry is present. A valid two-colour palette
  followed in the same burst by a palette command that announces two entries and carries
  one: the second command is rejected (mode and size are as before), yet entry 0 is
  overwritten, and the frame transmitted differs from the one the valid command alone
  gives.
\<close>

theorem rejected_palette_overwrites_entries:
  "(\<exists>s1 s2. loop (setup_state\<lparr>serial := good_palette @ [LF]\<rparr>) = Inr s1
      \<and> loop (setup_state\<lparr>serial := good_palette @ [LF] @ short_palette @ [LF]\<rparr>) = Inr s2
      \<and> paletteMode (rs s2) = paletteMode (rs s1) \<and> paletteSize (rs s2) = paletteSize (rs s1)
      \<and> take 2 (paletteR (rs s1)) = [0, 0] \<and> take 2 (paletteG (rs s1)) = [191, 0]
      \<and> take 2 (paletteR (rs s2)) = [255, 0] \<and> take 2 (paletteG (rs s2)) = [0, 0]
      \<and> leds s1 ! 0 = CRGB 0 191 0 \<and> leds s2 ! 0 = CRGB 255 0 0
      \<and> last (shown s1) \<noteq> last (shown s2))
   \<and> parsePalette short_palette (parsePalette good_palette (rs setup_state))
       \<noteq> parsePalette good_palette (rs setup_state)"
proof -
  let ?r1 = "foldl (\<lambda>r l. deliver l r) (rs setup_state) (complete_lines [] (good_palette @ [LF]))"
  let ?r2 = "foldl (\<lambda>r l. deliver l r) (rs setup_state)
      (complete_lines [] (good_palette @ [LF] @ short_palette @ [LF]))"
  have n: "needsUpdate ?r1" "needsUpdate ?r2" by code_simp+
  have m: "paletteMode ?r1" "paletteMode ?r2" "paletteSize ?r1 = 2" "paletteSize ?r2 = 2"
    by code_simp+
  have e: "take 2 (paletteR ?r1) = [0, 0]" "take 2 (paletteG ?r1) = [191, 0]"
    "take 2 (paletteR ?r2) = [255, 0]" "take 2 (paletteG ?r2) = [0, 0]"
    by code_simp+
  have p: "palette_pixel ?r1 0 = CRGB 0 191 0" "palette_pixel ?r2 0 = CRGB 255 0 0"
    by code_simp+
  have f: "frame_of ?r1 ! 0 = CRGB 0 191 0" "frame_of ?r2 ! 0 = CRGB 255 0 0"
    using nth_frame_of_palette [of ?r1 0] nth_frame_of_palette [of ?r2 0] m p
    by (simp_all add: NUM_LEDS_def)
  then have d: "frame_of ?r1 \<noteq> frame_of ?r2" by auto
  obtain s1 where s1: "loop (setup_state\<lparr>serial := good_palette @ [LF]\<rparr>) = Inr s1"
    "rs s1 = ?r1\<lparr>needsUpdate := False\<rparr>" "leds s1 = frame_of ?r1" "last (shown s1) = frame_of ?r1"
    using loop_from_setup [OF n(1)] by blast
  obtain s2 where s2: "loop (setup_state\<lparr>serial := good_palette @ [LF] @ short_palette @ [LF]\<rparr>) = Inr s2"
    "rs s2 = ?r2\<lparr>needsUpdate := False\<rparr>" "leds s2 = frame_of ?r2" "last (shown s2) = frame_of ?r2"
    using loop_from_setup [OF n(2)] by blast
  have q: "parsePalette short_palette (parsePalette good_palette (rs setup_state))
       \<noteq> parsePalette good_palette (rs setup_state)"
    by code_simp
  from s1 s2 m e f d q show ?thesis
    by (intro conjI exI [of _ s1] exI [of _ s2]) simp_all
qed


section \<open>The decimal reader and the single-colour parser\<close>

lemma isdigit_not_space: "isdigit c \<Longrightarrow> \<not> isspace c"
  by (auto simp: isdigit_def isspace_def)

lemma sign_not_space: "\<not> isspace (CHR ''-'')" "\<not> isspace (CHR ''+'')"
  by (simp_all add: isspace_def ord_Char)

lemma sign_not_digit: "\<not> isdigit (CHR ''-'')" "\<not> isdigit (CHR ''+'')" "\<not> isdigit (CHR '','')"
  by (simp_all add: isdigit_def ord_Char)

lemma comma_not_space: "\<not> isspace (CHR '','')"
  by (simp add: isspace_def ord_Char)

lemma takeWhile_digits:
  assumes "list_all isdigit ds" "rest = [] \<or> \<not> isdigit (hd rest)"
  shows "takeWhile isdigit (ds @ rest) = ds" "dropWhile isdigit (ds @ rest) = rest"
proof -
  have t: "takeWhile isdigit rest = []" "dropWhile isdigit rest = rest"
    using assms(2) by (cases rest; simp)+
  show "takeWhile isdigit (ds @ rest) = ds" "dropWhile isdigit (ds @ rest) = rest"
    using assms(1) t by (simp_all add: list_all_iff)
qed

lemma wrap_int_range: "INT_MIN \<le> wrap_int v \<and> wrap_int v \<le> INT_MAX"
proof -
  have "0 \<le> (v - INT_MIN) mod 2 ^ INT_BITS" "(v - INT_MIN) mod 2 ^ INT_BITS < 2 ^ INT_BITS"
    by simp_all
  then show ?thesis by (simp add: wrap_int_def INT_MIN_def INT_MAX_def INT_BITS_def)
qed

text \<open>A number that fits an \<^verbatim>\<open>int\<close> is stored as it is.\<close>

lemma wrap_int_id: "INT_MIN \<le> v \<Longrightarrow> v \<le> INT_MAX \<Longrightarrow> wrap_int v = v"
  by (simp add: wrap_int_def INT_MIN_def INT_MAX_def INT_BITS_def)

text \<open>
  A numeral that does not fit is wrapped, in both parsers: the count \<^verbatim>\<open>65538\<close> is read as
  2 and the palette command is accepted with two entries; the red value \<^verbatim>\<open>40000\<close> is read
  as a negative number and clamped to 0.
\<close>

lemma numerals_wrap:
  "atoi ''65538:FF0000:00FF00'' = 2
   \<and> paletteSize (parsePalette ''P:65538:FF0000:00FF00'' (rs setup_state)) = 2
   \<and> paletteMode (parsePalette ''P:65538:FF0000:00FF00'' (rs setup_state))
   \<and> sscanf_ddd ''40000,0,300'' = [- 25536, 0, 300]
   \<and> currentR (parseSingle ''40000,0,300'' (rs setup_state)) = 0
   \<and> currentB (parseSingle ''40000,0,300'' (rs setup_state)) = 229"
  by code_simp

text \<open>A field followed by something that is no digit is read whole, with its value.\<close>

lemma scan_int_field:
  assumes "int_field f" "rest = [] \<or> \<not> isdigit (hd rest)"
  shows "scan_int (f @ rest) = Some (wrap_int (field_value f), rest)"
proof -
  define l where "l = dropWhile isspace f"
  from assms(1) have lit: "int_literal l" by (simp add: int_field_def l_def)
  then obtain c r where l: "l = c # r" by (cases l) (auto simp: int_literal_def)
  have nsp: "\<not> isspace c" using l hd_dropWhile [of isspace f] by (simp add: l_def)
  have "c \<in> set f" using l set_dropWhileD [of c isspace f] by (simp add: l_def)
  then have dw: "dropWhile isspace (f @ rest) = l @ rest"
    using nsp by (simp add: l_def)
  show ?thesis
  proof (cases "c = CHR ''-'' \<or> c = CHR ''+''")
    case True
    with lit l have d: "r \<noteq> []" "list_all isdigit r" by (auto simp: int_literal_def)
    from takeWhile_digits [OF d(2) assms(2)] d(1) True l show ?thesis
      by (auto simp: scan_int_def dw field_value_def l_def [symmetric] Let_def)
  next
    case False
    with lit l have d: "list_all isdigit (c # r)" by (auto simp: int_literal_def)
    from takeWhile_digits [OF d assms(2)] False l show ?thesis
      by (auto simp: scan_int_def dw field_value_def l_def [symmetric] Let_def)
  qed
qed


lemma space_not_comma: "isspace c \<Longrightarrow> c \<noteq> CHR '',''"
  using comma_not_space by auto

lemma digit_not_comma: "isdigit c \<Longrightarrow> c \<noteq> CHR '',''"
  using sign_not_digit(3) by auto

text \<open>What a successful read has consumed is a field, and it holds no comma.\<close>

lemma scan_int_consumed:
  assumes "scan_int s = Some (v, rest)"
  shows "\<exists>f. s = f @ rest \<and> int_field f \<and> wrap_int (field_value f) = v \<and> CHR '','' \<notin> set f
           \<and> (rest = [] \<or> \<not> isdigit (hd rest))"
proof -
  define w where "w = takeWhile isspace s"
  define s1 where "s1 = dropWhile isspace s"
  define s2 where "s2 = (case s1 of [] \<Rightarrow> s1 | c # r \<Rightarrow> if c = CHR ''-'' \<or> c = CHR ''+'' then r else s1)"
  define neg where "neg = (case s1 of [] \<Rightarrow> False | c # r \<Rightarrow> c = CHR ''-'')"
  define ds where "ds = takeWhile isdigit s2"
  have s: "s = w @ s1" by (simp add: w_def s1_def)
  have s2: "s2 = ds @ dropWhile isdigit s2" by (simp add: ds_def)
  from assms have ne: "ds \<noteq> []" and rest: "rest = dropWhile isdigit s2"
    and v: "v = wrap_int (if neg then - digits_value ds else digits_value ds)"
    by (auto simp: scan_int_def Let_def s1_def [symmetric] s2_def [symmetric] ds_def [symmetric]
        neg_def [symmetric] split: if_splits)
  from ne obtain d ds' where ds: "ds = d # ds'" by (cases ds) auto
  have dig: "list_all isdigit ds" by (auto simp: ds_def list_all_iff dest: set_takeWhileD)
  then have d: "isdigit d" by (simp add: ds)
  then have dns: "d \<noteq> CHR ''-''" "d \<noteq> CHR ''+''" "\<not> isspace d"
    using sign_not_digit isdigit_not_space by auto
  have wsp: "\<forall>c\<in>set w. isspace c" by (auto simp: w_def dest: set_takeWhileD)
  have r: "rest = [] \<or> \<not> isdigit (hd rest)"
    unfolding rest using hd_dropWhile [of isdigit s2] by auto
  have nc: "CHR '','' \<notin> set w" "CHR '','' \<notin> set ds"
    using wsp dig by (auto simp: list_all_iff dest: space_not_comma digit_not_comma)
  have "(s1 = s2 \<and> \<not> neg) \<or> (s1 = CHR ''-'' # s2 \<and> neg) \<or> (s1 = CHR ''+'' # s2 \<and> \<not> neg)"
  proof (cases s1)
    case Nil
    then show ?thesis by (simp add: s2_def neg_def)
  next
    case (Cons c r)
    show ?thesis
    proof (cases "c = CHR ''-''")
      case True
      then have "s2 = r" "neg" by (simp_all add: s2_def neg_def Cons)
      with True Cons show ?thesis by simp
    next
      case nm: False
      show ?thesis
      proof (cases "c = CHR ''+''")
        case True
        then have "s2 = r" "\<not> neg" by (simp_all add: s2_def neg_def Cons)
        with True Cons show ?thesis by simp
      next
        case False
        with nm have "s2 = s1" "\<not> neg" by (simp_all add: s2_def neg_def Cons)
        then show ?thesis by simp
      qed
    qed
  qed
  then consider (plain) "s1 = s2" "\<not> neg"
    | (minus) "s1 = CHR ''-'' # s2" "neg"
    | (plus) "s1 = CHR ''+'' # s2" "\<not> neg"
    by blast
  then show ?thesis
  proof cases
    case plain
    let ?f = "w @ ds"
    have dw: "dropWhile isspace ?f = ds" using wsp dns by (simp add: ds)
    have "s = ?f @ rest" using s plain s2 rest by simp
    moreover have "int_field ?f" unfolding int_field_def dw
      using dig dns by (simp add: int_literal_def ds)
    moreover have "wrap_int (field_value ?f) = v" unfolding field_value_def dw
      using plain dns by (simp add: v ds)
    moreover have "CHR '','' \<notin> set ?f" using nc by simp
    ultimately show ?thesis using r by blast
  next
    case minus
    let ?f = "w @ CHR ''-'' # ds"
    have dw: "dropWhile isspace ?f = CHR ''-'' # ds" using wsp sign_not_space by simp
    have "s = ?f @ rest" using s minus s2 rest by simp
    moreover have "int_field ?f" unfolding int_field_def dw
      using dig by (simp add: int_literal_def ds)
    moreover have "wrap_int (field_value ?f) = v" unfolding field_value_def dw
      using minus by (simp add: v)
    moreover have "CHR '','' \<notin> set ?f" using nc by simp
    ultimately show ?thesis using r by blast
  next
    case plus
    let ?f = "w @ CHR ''+'' # ds"
    have dw: "dropWhile isspace ?f = CHR ''+'' # ds" using wsp sign_not_space by simp
    have "s = ?f @ rest" using s plus s2 rest by simp
    moreover have "int_field ?f" unfolding int_field_def dw
      using dig by (simp add: int_literal_def ds)
    moreover have "wrap_int (field_value ?f) = v" unfolding field_value_def dw
      using plus by (simp add: v)
    moreover have "CHR '','' \<notin> set ?f" using nc by simp
    ultimately show ?thesis using r by blast
  qed
qed

text \<open>A field followed by anything is read, possibly together with further digits.\<close>

lemma scan_int_field_some:
  assumes "int_field f"
  shows "scan_int (f @ rest) \<noteq> None"
proof -
  define l where "l = dropWhile isspace f"
  from assms have lit: "int_literal l" by (simp add: int_field_def l_def)
  then obtain c r where l: "l = c # r" by (cases l) (auto simp: int_literal_def)
  have nsp: "\<not> isspace c" using l hd_dropWhile [of isspace f] by (simp add: l_def)
  have "c \<in> set f" using l set_dropWhileD [of c isspace f] by (simp add: l_def)
  then have dw: "dropWhile isspace (f @ rest) = l @ rest"
    using nsp by (simp add: l_def)
  show ?thesis
  proof (cases "c = CHR ''-'' \<or> c = CHR ''+''")
    case True
    with lit l obtain d r' where "r = d # r'" "isdigit d"
      by (cases r) (auto simp: int_literal_def)
    with True l show ?thesis by (auto simp: scan_int_def dw Let_def)
  next
    case False
    with lit l have "isdigit c" by (auto simp: int_literal_def)
    with False l show ?thesis by (auto simp: scan_int_def dw Let_def)
  qed
qed

lemma split_commas_nonempty: "split_commas s \<noteq> []"
  by (induction s) (auto split: list.splits)

lemma split_commas_plain: "CHR '','' \<notin> set a \<Longrightarrow> split_commas a = [a]"
  by (induction a) auto

lemma split_commas_append:
  "CHR '','' \<notin> set a \<Longrightarrow> split_commas (a @ CHR '','' # r) = a # split_commas r"
  by (induction a) auto

lemma split_commas_join:
  "split_commas p = a # fs \<Longrightarrow>
     CHR '','' \<notin> set a \<and> (if fs = [] then p = a else \<exists>r. p = a @ CHR '','' # r \<and> split_commas r = fs)"
proof (induction p arbitrary: a fs)
  case Nil
  then show ?case by simp
next
  case (Cons c cs)
  show ?case
  proof (cases "c = CHR '',''")
    case True
    with Cons.prems show ?thesis using split_commas_nonempty [of cs] by auto
  next
    case False
    obtain f fs' where sp: "split_commas cs = f # fs'"
      using split_commas_nonempty [of cs] by (cases "split_commas cs") auto
    with False Cons.prems have a: "a = c # f" "fs = fs'" by auto
    from Cons.IH [OF sp] a False show ?thesis by auto
  qed
qed

lemma split_commas_three:
  assumes "split_commas p = [a, b, c]"
  shows "p = a @ CHR '','' # b @ CHR '','' # c"
    and "CHR '','' \<notin> set a" "CHR '','' \<notin> set b" "CHR '','' \<notin> set c"
proof -
  from split_commas_join [OF assms] obtain r where
    a: "CHR '','' \<notin> set a" "p = a @ CHR '','' # r" "split_commas r = [b, c]" by auto
  from split_commas_join [OF a(3)] obtain r' where
    b: "CHR '','' \<notin> set b" "r = b @ CHR '','' # r'" "split_commas r' = [c]" by auto
  from split_commas_join [OF b(3)] have c: "CHR '','' \<notin> set c" "r' = c" by auto
  show "p = a @ CHR '','' # b @ CHR '','' # c" using a b c by simp
  show "CHR '','' \<notin> set a" "CHR '','' \<notin> set b" "CHR '','' \<notin> set c" using a b c by auto
qed


lemma sscanf_ddd_three:
  "(length (sscanf_ddd line) = 3) =
     (\<exists>r g b q1 q2 p3. scan_int line = Some (r, CHR '','' # q1) \<and> scan_int q1 = Some (g, CHR '','' # q2)
         \<and> scan_int q2 = Some (b, p3))"
  by (auto simp: sscanf_ddd_def split: option.splits list.splits)

lemma sscanf_ddd_values:
  "scan_int line = Some (r, CHR '','' # q1) \<Longrightarrow> scan_int q1 = Some (g, CHR '','' # q2)
     \<Longrightarrow> scan_int q2 = Some (b, p3) \<Longrightarrow> sscanf_ddd line = [r, g, b]"
  by (simp add: sscanf_ddd_def)

lemma comma_rest: "CHR '','' # q = [] \<or> \<not> isdigit (hd (CHR '','' # q))"
  using sign_not_digit(3) by simp

lemma three_ints_fields:
  assumes "three_ints p"
  obtains a b c where "split_commas p = [a, b, c]" "int_field a" "int_field b" "int_field c"
    "p = a @ CHR '','' # b @ CHR '','' # c"
proof -
  from assms obtain a b c where sp: "split_commas p = [a, b, c]"
    and f: "int_field a" "int_field b" "int_field c"
    by (auto simp: three_ints_def split: list.splits)
  from split_commas_three(1) [OF sp] sp f that show ?thesis by blast
qed

lemma sscanf_accepts_iff:
  "(length (sscanf_ddd line) = 3) = (\<exists>p rest. line = p @ rest \<and> three_ints p)"
proof
  assume "length (sscanf_ddd line) = 3"
  then obtain r g b q1 q2 p3 where sc: "scan_int line = Some (r, CHR '','' # q1)"
    "scan_int q1 = Some (g, CHR '','' # q2)" "scan_int q2 = Some (b, p3)"
    unfolding sscanf_ddd_three by blast
  from scan_int_consumed [OF sc(1)] obtain f1 where
    f1: "line = f1 @ CHR '','' # q1" "int_field f1" "CHR '','' \<notin> set f1" by blast
  from scan_int_consumed [OF sc(2)] obtain f2 where
    f2: "q1 = f2 @ CHR '','' # q2" "int_field f2" "CHR '','' \<notin> set f2" by blast
  from scan_int_consumed [OF sc(3)] obtain f3 where
    f3: "q2 = f3 @ p3" "int_field f3" "CHR '','' \<notin> set f3" by blast
  let ?p = "f1 @ CHR '','' # f2 @ CHR '','' # f3"
  have "split_commas ?p = [f1, f2, f3]"
    using f1(3) f2(3) f3(3) by (simp add: split_commas_append split_commas_plain)
  then have "three_ints ?p" using f1(2) f2(2) f3(2) by (simp add: three_ints_def)
  moreover have "line = ?p @ p3" using f1(1) f2(1) f3(1) by simp
  ultimately show "\<exists>p rest. line = p @ rest \<and> three_ints p" by blast
next
  assume "\<exists>p rest. line = p @ rest \<and> three_ints p"
  then obtain p rest where l: "line = p @ rest" and t: "three_ints p" by blast
  from t obtain a b c where f: "int_field a" "int_field b" "int_field c"
    and p: "p = a @ CHR '','' # b @ CHR '','' # c"
    by (rule three_ints_fields)
  have l': "line = a @ CHR '','' # (b @ CHR '','' # (c @ rest))" using l p by simp
  have 1: "scan_int line = Some (wrap_int (field_value a), CHR '','' # (b @ CHR '','' # (c @ rest)))"
    unfolding l' by (rule scan_int_field [OF f(1) comma_rest])
  have 2: "scan_int (b @ CHR '','' # (c @ rest)) = Some (wrap_int (field_value b), CHR '','' # (c @ rest))"
    by (rule scan_int_field [OF f(2) comma_rest])
  obtain v p3 where 3: "scan_int (c @ rest) = Some (v, p3)"
    using scan_int_field_some [OF f(3), of rest] by (cases "scan_int (c @ rest)") auto
  from 1 2 3 show "length (sscanf_ddd line) = 3" unfolding sscanf_ddd_three by blast
qed

lemma sscanf_ddd_fields:
  assumes "line = p @ rest" "three_ints p" "rest = [] \<or> \<not> isdigit (hd rest)"
  shows "sscanf_ddd line = map (\<lambda>f. wrap_int (field_value f)) (split_commas p)"
proof -
  from assms(2) obtain a b c where sp: "split_commas p = [a, b, c]"
    and f: "int_field a" "int_field b" "int_field c"
    and p: "p = a @ CHR '','' # b @ CHR '','' # c"
    by (rule three_ints_fields)
  have l': "line = a @ CHR '','' # (b @ CHR '','' # (c @ rest))" using assms(1) p by simp
  have 1: "scan_int line = Some (wrap_int (field_value a), CHR '','' # (b @ CHR '','' # (c @ rest)))"
    unfolding l' by (rule scan_int_field [OF f(1) comma_rest])
  have 2: "scan_int (b @ CHR '','' # (c @ rest)) = Some (wrap_int (field_value b), CHR '','' # (c @ rest))"
    by (rule scan_int_field [OF f(2) comma_rest])
  have 3: "scan_int (c @ rest) = Some (wrap_int (field_value c), rest)"
    by (rule scan_int_field [OF f(3) assms(3)])
  from sscanf_ddd_values [OF 1 2 3] sp show ?thesis by simp
qed

lemma sscanf_ddd_fields_in_range:
  assumes "line = p @ rest" "three_ints p" "rest = [] \<or> \<not> isdigit (hd rest)"
    and "\<forall>f\<in>set (split_commas p). INT_MIN \<le> field_value f \<and> field_value f \<le> INT_MAX"
  shows "sscanf_ddd line = map field_value (split_commas p)"
proof -
  have "map (\<lambda>f. wrap_int (field_value f)) (split_commas p) = map field_value (split_commas p)"
    using assms(4) by (intro map_cong refl) (simp add: wrap_int_id)
  with sscanf_ddd_fields [OF assms(1-3)] show ?thesis by simp
qed

lemma scan_int_range: "scan_int s = Some (v, rest) \<Longrightarrow> INT_MIN \<le> v \<and> v \<le> INT_MAX"
  using wrap_int_range by (auto simp: scan_int_def Let_def split: if_splits)

lemma sscanf_ddd_range:
  assumes "sscanf_ddd line = [r, g, b]"
  shows "INT_MIN \<le> r \<and> r \<le> INT_MAX" "INT_MIN \<le> g \<and> g \<le> INT_MAX"
    "INT_MIN \<le> b \<and> b \<le> INT_MAX"
proof -
  from assms have "length (sscanf_ddd line) = 3" by simp
  then obtain r' g' b' q1 q2 p3 where sc: "scan_int line = Some (r', CHR '','' # q1)"
    "scan_int q1 = Some (g', CHR '','' # q2)" "scan_int q2 = Some (b', p3)"
    unfolding sscanf_ddd_three by blast
  from sscanf_ddd_values [OF sc] assms have "r' = r" "g' = g" "b' = b" by simp_all
  with scan_int_range [OF sc(1)] scan_int_range [OF sc(2)] scan_int_range [OF sc(3)]
  show "INT_MIN \<le> r \<and> r \<le> INT_MAX" "INT_MIN \<le> g \<and> g \<le> INT_MAX"
    "INT_MIN \<le> b \<and> b \<le> INT_MAX"
    by simp_all
qed

lemma constrain_byte: "0 \<le> constrain v 0 255" "constrain v 0 255 \<le> 255"
  by (simp_all add: constrain_def)

lemma parseSingle_success:
  "sscanf_ddd line = [r, g, b] \<Longrightarrow>
   parseSingle line s =
     s\<lparr>currentR := \<lfloor>real_of_int (constrain r 0 255) * 1.00\<rfloor>,
       currentG := \<lfloor>real_of_int (constrain g 0 255) * 0.75\<rfloor>,
       currentB := \<lfloor>real_of_int (constrain b 0 255) * 0.90\<rfloor>,
       paletteMode := False, needsUpdate := True\<rparr>"
  by (simp only: parseSingle_def list.case calibrate_real [OF constrain_byte, symmetric])

lemma parseSingle_reject: "length (sscanf_ddd line) \<noteq> 3 \<Longrightarrow> parseSingle line s = s"
  by (auto simp: parseSingle_def split: list.splits)

text \<open>
  Claim C6, amended. The single-colour parser accepts a line if and only if the line
  begins with three comma-separated integers in the shape \<^verbatim>\<open><int>,<int>,<int>\<close>; whatever
  follows the third integer is ignored. On rejection the render state is unchanged. On
  success each of the three \<^verbatim>\<open>int\<close> values read is clamped into \<open>[0, 255]\<close>, multiplied
  by its channel factor and truncated, and stored as the flat colour; the mode is flat and
  needs-render is set. When the three numbers fit an \<^verbatim>\<open>int\<close> and the character after them
  is no digit, the values read are the numbers written in the three fields.
\<close>

theorem parseSingle_accepts_three_int_prefix:
  "(length (sscanf_ddd line) = 3) = (\<exists>p rest. line = p @ rest \<and> three_ints p)
   \<and> (length (sscanf_ddd line) \<noteq> 3 \<longrightarrow> parseSingle line s = s)
   \<and> (length (sscanf_ddd line) = 3 \<longrightarrow>
        (\<exists>r g b. sscanf_ddd line = [r, g, b]
           \<and> (\<forall>v\<in>{r, g, b}. INT_MIN \<le> v \<and> v \<le> INT_MAX)
           \<and> parseSingle line s =
               s\<lparr>currentR := \<lfloor>real_of_int (constrain r 0 255) * 1.00\<rfloor>,
                 currentG := \<lfloor>real_of_int (constrain g 0 255) * 0.75\<rfloor>,
                 currentB := \<lfloor>real_of_int (constrain b 0 255) * 0.90\<rfloor>,
                 paletteMode := False, needsUpdate := True\<rparr>))
   \<and> (line = p @ rest \<and> three_ints p \<and> (rest = [] \<or> \<not> isdigit (hd rest))
        \<and> (\<forall>f\<in>set (split_commas p). INT_MIN \<le> field_value f \<and> field_value f \<le> INT_MAX) \<longrightarrow>
        sscanf_ddd line = map field_value (split_commas p))"
proof -
  have "\<exists>r g b. sscanf_ddd line = [r, g, b]
           \<and> (\<forall>v\<in>{r, g, b}. INT_MIN \<le> v \<and> v \<le> INT_MAX)
           \<and> parseSingle line s =
               s\<lparr>currentR := \<lfloor>real_of_int (constrain r 0 255) * 1.00\<rfloor>,
                 currentG := \<lfloor>real_of_int (constrain g 0 255) * 0.75\<rfloor>,
                 currentB := \<lfloor>real_of_int (constrain b 0 255) * 0.90\<rfloor>,
                 paletteMode := False, needsUpdate := True\<rparr>"
    if "length (sscanf_ddd line) = 3"
  proof -
    from that obtain r g b where sc: "sscanf_ddd line = [r, g, b]"
      by (auto simp: length_Suc_conv numeral_3_eq_3)
    have "\<forall>v\<in>{r, g, b}. INT_MIN \<le> v \<and> v \<le> INT_MAX"
      using sscanf_ddd_range [OF sc] by simp
    with sc parseSingle_success [OF sc, of s] show ?thesis by blast
  qed
  with sscanf_accepts_iff [of line] parseSingle_reject [of line s]
    sscanf_ddd_fields_in_range [of line p rest]
  show ?thesis by blast
qed

text \<open>
  The claim as stated fails: a line of four comma-separated integers is not of the
  shape, and the parser accepts it.
\<close>

theorem parseSingle_accepts_four_integers:
  "\<not> three_ints ''1,2,3,4'' \<and> sscanf_ddd ''1,2,3,4'' = [1, 2, 3]
   \<and> parseSingle ''1,2,3,4'' (rs setup_state) \<noteq> rs setup_state
   \<and> needsUpdate (parseSingle ''1,2,3,4'' (rs setup_state))"
  by code_simp

theorem parseSingle_accepts_three_int_prefix_witness:
  "three_ints ''300, -5,+77'' \<and> \<not> isdigit (hd '';x'')
   \<and> sscanf_ddd ''300, -5,+77;x'' = [300, -5, 77]
   \<and> parseSingle ''300, -5,+77;x'' (rs setup_state)
       = (rs setup_state)\<lparr>currentR := 255, currentG := 0, currentB := 69, paletteMode := False,
            needsUpdate := True\<rparr>
   \<and> length (sscanf_ddd ''1,2'') = 2
   \<and> parseSingle ''1,2'' (rs setup_state) = rs setup_state"
proof -
  have h: "three_ints ''300, -5,+77''" "\<not> isdigit (hd '';x'')" "length (sscanf_ddd ''1,2'') = 2"
    by code_simp+
  have v: "map field_value (split_commas ''300, -5,+77'') = [300, -5, 77]" by code_simp
  have rg: "\<forall>f\<in>set (split_commas ''300, -5,+77''). INT_MIN \<le> field_value f \<and> field_value f \<le> INT_MAX"
    by code_simp
  note t = parseSingle_accepts_three_int_prefix [of "''300, -5,+77;x''" "rs setup_state" "''300, -5,+77''" "'';x''"]
  have sc: "sscanf_ddd ''300, -5,+77;x'' = [300, -5, 77]" using t h v rg by simp
  then have "parseSingle ''300, -5,+77;x'' (rs setup_state)
       = (rs setup_state)\<lparr>currentR := \<lfloor>real_of_int (constrain 300 0 255) * 1.00\<rfloor>,
                 currentG := \<lfloor>real_of_int (constrain (-5) 0 255) * 0.75\<rfloor>,
                 currentB := \<lfloor>real_of_int (constrain 77 0 255) * 0.90\<rfloor>,
                 paletteMode := False, needsUpdate := True\<rparr>"
    using t by auto
  moreover have "\<lfloor>real_of_int (77::int) * 0.90\<rfloor> = 69"
    by (simp add: floor_eq_iff)
  ultimately have ps: "parseSingle ''300, -5,+77;x'' (rs setup_state)
       = (rs setup_state)\<lparr>currentR := 255, currentG := 0, currentB := 69, paletteMode := False,
            needsUpdate := True\<rparr>"
    by (simp add: constrain_def)
  have rj: "parseSingle ''1,2'' (rs setup_state) = rs setup_state"
    using parseSingle_accepts_three_int_prefix [of "''1,2''" "rs setup_state"] h(3) by simp
  from h sc ps rj show ?thesis by simp
qed


section \<open>Flat-colour commands through the loop\<close>

lemma ord_digit_char:
  assumes "d < 10"
  shows "ord (digit_char d) = 48 + int d"
proof -
  have "ord (digit_char d) = int (of_char (digit_char d))"
    by (simp add: ord_def of_nat_of_char)
  also have "(of_char (digit_char d) :: nat) = (48 + d) mod 256"
    by (simp add: digit_char_def)
  also have "\<dots> = 48 + d" using assms by simp
  finally show ?thesis by simp
qed

lemma isdigit_digit_char: "d < 10 \<Longrightarrow> isdigit (digit_char d)"
  by (simp add: isdigit_def ord_digit_char)

lemma decimal_digits: "list_all isdigit (decimal n) \<and> decimal n \<noteq> []"
proof (induction n rule: decimal.induct)
  case (1 n)
  show ?case
  proof (cases "n < 10")
    case True
    then show ?thesis by (subst (1 2) decimal.simps) (simp add: isdigit_digit_char)
  next
    case False
    with "1.IH" show ?thesis by (subst (1 2) decimal.simps) (simp add: isdigit_digit_char)
  qed
qed

lemma digits_value_snoc: "digits_value (ds @ [c]) = 10 * digits_value ds + (ord c - 48)"
  by (simp add: digits_value_def)

lemma digits_value_decimal: "digits_value (decimal n) = int n"
proof (induction n rule: decimal.induct)
  case (1 n)
  show ?case
  proof (cases "n < 10")
    case True
    then show ?thesis by (subst decimal.simps) (simp add: digits_value_def ord_digit_char)
  next
    case False
    then have "digits_value (decimal n) = 10 * int (n div 10) + int (n mod 10)"
      using "1.IH" by (subst decimal.simps) (simp add: digits_value_snoc ord_digit_char)
    then show ?thesis by (simp add: zdiv_int zmod_int)
  qed
qed

lemma length_decimal: "n < 1000 \<Longrightarrow> length (decimal n) \<le> 3"
  by (subst decimal.simps, subst decimal.simps, subst decimal.simps) auto

lemma decimal_head: "\<exists>c cs. decimal n = c # cs \<and> isdigit c"
  using decimal_digits [of n] by (cases "decimal n") auto

lemma isdigit_chars:
  assumes "isdigit c"
  shows "\<not> isspace c" "c \<noteq> CHR ''-''" "c \<noteq> CHR ''+''" "c \<noteq> CHR '',''" "c \<noteq> NUL" "c \<noteq> LF"
    "c \<noteq> CR" "c \<noteq> CHR ''P''"
  using assms by (auto simp: isdigit_def isspace_def ord_Char NUL_def LF_def CR_def)

lemma decimal_field: "int_field (decimal n)" "field_value (decimal n) = int n"
proof -
  obtain c cs where d: "decimal n = c # cs" "isdigit c" using decimal_head by blast
  have dw: "dropWhile isspace (decimal n) = decimal n"
    using d isdigit_chars(1) by simp
  show "int_field (decimal n)"
    unfolding int_field_def dw using decimal_digits [of n] d isdigit_chars(2,3) [OF d(2)]
    by (simp add: int_literal_def)
  show "field_value (decimal n) = int n"
    unfolding field_value_def dw using digits_value_decimal [of n] d isdigit_chars(2,3) [OF d(2)]
    by simp
qed

lemma not_digit_notin_decimal: "\<not> isdigit c \<Longrightarrow> c \<notin> set (decimal n)"
  using decimal_digits [of n] by (auto simp: list_all_iff)

lemma decimal_chars:
  "CHR '','' \<notin> set (decimal n)" "NUL \<notin> set (decimal n)" "LF \<notin> set (decimal n)"
  "CR \<notin> set (decimal n)"
  by (rule not_digit_notin_decimal, simp add: isdigit_def ord_Char NUL_def LF_def CR_def)+

lemma split_commas_flat_command:
  "split_commas (flat_command r g b) = [decimal r, decimal g, decimal b]"
  by (simp add: flat_command_def split_commas_append split_commas_plain decimal_chars)

lemma flat_command_fields:
  "three_ints (flat_command r g b)"
  "map field_value (split_commas (flat_command r g b)) = [int r, int g, int b]"
proof -
  have sp: "split_commas (flat_command r g b) = [decimal r, decimal g, decimal b]"
    by (rule split_commas_flat_command)
  show "three_ints (flat_command r g b)"
    by (simp add: three_ints_def sp decimal_field)
  show "map field_value (split_commas (flat_command r g b)) = [int r, int g, int b]"
    by (simp add: sp decimal_field)
qed

lemma sscanf_flat_command:
  assumes "r \<le> 255" "g \<le> 255" "b \<le> 255"
  shows "sscanf_ddd (flat_command r g b) = [int r, int g, int b]"
proof -
  have "\<forall>f\<in>set (split_commas (flat_command r g b)).
      INT_MIN \<le> field_value f \<and> field_value f \<le> INT_MAX"
    using assms
    by (simp add: flat_command_fields(2) [simplified] split_commas_flat_command decimal_field
        INT_MIN_def INT_MAX_def INT_BITS_def)
  from sscanf_ddd_fields_in_range [of "flat_command r g b" "flat_command r g b" "[]", OF _ _ _ this]
  show ?thesis by (simp add: flat_command_fields)
qed

lemma flat_command_chars:
  "NUL \<notin> set (flat_command r g b)" "LF \<notin> set (flat_command r g b)"
  "CR \<notin> set (flat_command r g b)"
proof -
  have c: "NUL \<noteq> CHR '',''" "LF \<noteq> CHR '',''" "CR \<noteq> CHR '',''"
    by (simp_all add: NUL_def LF_def CR_def)
  show "NUL \<notin> set (flat_command r g b)" "LF \<notin> set (flat_command r g b)"
    "CR \<notin> set (flat_command r g b)"
    using c by (simp_all add: flat_command_def decimal_chars)
qed

lemma flat_command_head: "\<exists>c cs. flat_command r g b = c # cs \<and> c \<noteq> CHR ''P''"
proof -
  obtain c cs where d: "decimal r = c # cs" "isdigit c" using decimal_head by blast
  from d(2) have "c \<noteq> CHR ''P''" by (rule isdigit_chars(8))
  with d(1) show ?thesis by (simp add: flat_command_def)
qed

lemma length_flat_command:
  "r \<le> 255 \<Longrightarrow> g \<le> 255 \<Longrightarrow> b \<le> 255 \<Longrightarrow> length (flat_command r g b) \<le> 11"
  using length_decimal [of r] length_decimal [of g] length_decimal [of b]
  by (simp add: flat_command_def)

lemma cstr_no_NUL: "NUL \<notin> set l \<Longrightarrow> cstr l = l"
  by (auto simp: cstr_def)

lemma deliver_flat_command:
  assumes "r \<le> 255" "g \<le> 255" "b \<le> 255"
  shows "deliver (flat_command r g b) s = parseSingle (flat_command r g b) s"
proof -
  obtain c cs where h: "flat_command r g b = c # cs" "c \<noteq> CHR ''P''"
    using flat_command_head by blast
  have t: "take 510 (flat_command r g b) = flat_command r g b"
    using length_flat_command [OF assms] by simp
  have c: "cstr (flat_command r g b) = flat_command r g b"
    by (rule cstr_no_NUL [OF flat_command_chars(1)])
  have "flat_command r g b \<noteq> []" "take 2 (flat_command r g b) \<noteq> ''P:''"
    using h by (simp_all add: h(1))
  then show ?thesis by (simp add: deliver_def t c)
qed

lemma complete_lines_line:
  assumes "LF \<notin> set l" "CR \<notin> set l" "t = LF \<or> t = CR"
  shows "complete_lines cur (l @ t # rest) = (cur @ l) # complete_lines [] rest"
  using assms by (induction l arbitrary: cur) auto


lemma uint_byte: "0 \<le> v \<Longrightarrow> v \<le> 255 \<Longrightarrow> uint (word_of_int v :: 8 word) = v"
  by (simp add: uint_word_of_int)

lemma floor_factor_byte:
  assumes "n \<le> 255"
  shows "0 \<le> \<lfloor>real n * 1.00\<rfloor> \<and> \<lfloor>real n * 1.00\<rfloor> \<le> 255"
    "0 \<le> \<lfloor>real n * 0.75\<rfloor> \<and> \<lfloor>real n * 0.75\<rfloor> \<le> 255"
    "0 \<le> \<lfloor>real n * 0.90\<rfloor> \<and> \<lfloor>real n * 0.90\<rfloor> \<le> 255"
proof -
  have v: "0 \<le> int n" "int n \<le> 255" using assms by simp_all
  have "channel_ok (int n)" using v by (simp add: channel_ok_def)
  from calibrate_ok [OF this] calibrate_real [OF v]
  show "0 \<le> \<lfloor>real n * 1.00\<rfloor> \<and> \<lfloor>real n * 1.00\<rfloor> \<le> 255"
    "0 \<le> \<lfloor>real n * 0.75\<rfloor> \<and> \<lfloor>real n * 0.75\<rfloor> \<le> 255"
    "0 \<le> \<lfloor>real n * 0.90\<rfloor> \<and> \<lfloor>real n * 0.90\<rfloor> \<le> 255"
    by (simp_all add: channel_ok_def)
qed

text \<open>
  Claim C4. A flat-colour command \<^verbatim>\<open>r,g,b\<close> with \<open>r\<close>, \<open>g\<close>, \<open>b\<close> in \<open>[0, 255]\<close>, received
  as a whole line, makes the same call of \<^verbatim>\<open>loop()\<close> transmit a uniform frame: each of the
  \<^verbatim>\<open>NUM_LEDS\<close> pixels has the channels \<open>r * 1.00\<close>, \<open>g * 0.75\<close> and \<open>b * 0.90\<close>, truncated
  to integers.
\<close>

theorem flat_command_renders_uniform:
  assumes "r \<le> 255" "g \<le> 255" "b \<le> 255"
    and "ctrl_inv s" "bufferPos s = 0" "t = LF \<or> t = CR"
  shows "\<exists>s'. loop (s\<lparr>serial := flat_command r g b @ [t]\<rparr>) = Inr s'
     \<and> int (length (leds s')) = NUM_LEDS
     \<and> (\<forall>px \<in> set (leds s').
           uint (red px) = \<lfloor>real r * 1.00\<rfloor>
           \<and> uint (green px) = \<lfloor>real g * 0.75\<rfloor>
           \<and> uint (blue px) = \<lfloor>real b * 0.90\<rfloor>)
     \<and> shown s' = shown s @ [leds s']"
proof -
  let ?cmd = "flat_command r g b"
  let ?s = "s\<lparr>serial := ?cmd @ [t]\<rparr>"
  let ?r = "parseSingle ?cmd (rs s)"
  have inv: "ctrl_inv ?s" using assms(4) by (simp add: ctrl_inv_upd_serial)
  have pend: "pending ?s = []" using assms(5) by (simp add: pending_def)
  have cl: "complete_lines [] (?cmd @ [t]) = [?cmd]"
    using complete_lines_line [where l = ?cmd and cur = "[]" and rest = "[]",
        OF flat_command_chars(2,3) assms(6)] by simp
  have d: "rs (drain ?s) = ?r"
    unfolding drain_facts(5) [OF inv] pend
    by (simp add: cl deliver_flat_command [OF assms(1-3)])
  have cr: "constrain (int r) 0 255 = int r" "constrain (int g) 0 255 = int g"
    "constrain (int b) 0 255 = int b"
    using assms(1-3) by (simp_all add: constrain_def)
  define R G B where "R = \<lfloor>real r * 1.00\<rfloor>" and "G = \<lfloor>real g * 0.75\<rfloor>"
    and "B = \<lfloor>real b * 0.90\<rfloor>"
  have rng: "0 \<le> R" "R \<le> 255" "0 \<le> G" "G \<le> 255" "0 \<le> B" "B \<le> 255"
    using floor_factor_byte(1) [OF assms(1)] floor_factor_byte(2) [OF assms(2)]
      floor_factor_byte(3) [OF assms(3)]
    unfolding R_def G_def B_def by blast+
  have ps: "?r = (rs s)\<lparr>currentR := R, currentG := G, currentB := B,
      paletteMode := False, needsUpdate := True\<rparr>"
    using parseSingle_success [OF sscanf_flat_command [OF assms(1-3)], of "rs s"]
    unfolding cr R_def G_def B_def by simp
  have fr: "frame_of ?r = replicate (nat NUM_LEDS)
      (CRGB (word_of_int R) (word_of_int G) (word_of_int B))"
    unfolding ps by (simp add: frame_of_def flat_pixel_def CRGB_of_ints_def)
  have nu: "needsUpdate ?r" unfolding ps by simp
  let ?s' = "(drain ?s)\<lparr>pin13 := False, leds := frame_of ?r,
                  shown := shown ?s @ [frame_of ?r],
                  rs := ?r\<lparr>needsUpdate := False\<rparr>\<rparr>"
  have l: "loop ?s = Inr ?s'" using nu by (simp add: loop_closed [OF inv] d)
  have px: "\<forall>px \<in> set (leds ?s'). uint (red px) = R \<and> uint (green px) = G \<and> uint (blue px) = B"
    using rng by (simp add: fr uint_byte)
  have "int (length (leds ?s')) = NUM_LEDS" by (simp add: length_frame_of)
  moreover have "shown ?s' = shown s @ [leds ?s']" by simp
  ultimately show ?thesis using l px unfolding R_def G_def B_def by blast
qed

theorem flat_command_renders_uniform_witness:
  "(10::nat) \<le> 255 \<and> (20::nat) \<le> 255 \<and> (30::nat) \<le> 255 \<and> ctrl_inv setup_state
   \<and> bufferPos setup_state = 0
   \<and> flat_command 10 20 30 = ''10,20,30''
   \<and> (\<exists>s'. loop (setup_state\<lparr>serial := ''10,20,30'' @ [LF]\<rparr>) = Inr s'
         \<and> length (leds s') = 256
         \<and> (\<forall>px \<in> set (leds s'). uint (red px) = 10 \<and> uint (green px) = 15 \<and> uint (blue px) = 27))"
proof -
  have fc: "flat_command 10 20 30 = ''10,20,30''" by code_simp
  have b: "bufferPos setup_state = 0" by (simp add: setup_state_def)
  have f: "\<lfloor>real (10::nat) * 1.00\<rfloor> = 10" "\<lfloor>real (20::nat) * 0.75\<rfloor> = 15" "\<lfloor>real (30::nat) * 0.90\<rfloor> = 27"
    by simp_all
  from flat_command_renders_uniform [of 10 20 30 setup_state LF, OF _ _ _ setup_ctrl_inv b]
  obtain s' where "loop (setup_state\<lparr>serial := flat_command 10 20 30 @ [LF]\<rparr>) = Inr s'"
    "int (length (leds s')) = NUM_LEDS"
    "\<forall>px \<in> set (leds s').
           uint (red px) = \<lfloor>real (10::nat) * 1.00\<rfloor>
           \<and> uint (green px) = \<lfloor>real (20::nat) * 0.75\<rfloor>
           \<and> uint (blue px) = \<lfloor>real (30::nat) * 0.90\<rfloor>"
    by auto
  then have "loop (setup_state\<lparr>serial := ''10,20,30'' @ [LF]\<rparr>) = Inr s'
         \<and> length (leds s') = 256
         \<and> (\<forall>px \<in> set (leds s'). uint (red px) = 10 \<and> uint (green px) = 15 \<and> uint (blue px) = 27)"
    unfolding f fc by (simp add: NUM_LEDS_def)
  with fc b setup_ctrl_inv show ?thesis by auto
qed


end
